theory Spec2Isabelle
  imports Main "HOL-Library.Word" "HOL-Library.Sublist"
begin

unbundle bit_operations_syntax

section \<open>Go values\<close>

text \<open>
  The package \<^verbatim>\<open>audio\<close> (clip.go) works on 16-bit signed samples. A sample is a
  16-bit word; the signed reading is \<open>sint\<close>. Go's \<^verbatim>\<open>int\<close> (lengths, indices, the
  division count, the sample rate) is an integer; lengths that cannot be negative are
  naturals. A run-time panic is a value of type \<open>panic\<close>, and a function that can
  panic returns \<open>panic + 'a\<close>. Go's \<^verbatim>\<open>error\<close> is an optional message, \<open>None\<close> for nil.
\<close>

type_synonym int16 = "16 word"
type_synonym int32 = "32 word"

datatype panic =
  IndexOutOfRange
  | SliceBoundsOutOfRange
  | DivideByZero
  | MakeSliceLenOutOfRange

type_synonym error = "string option"

text \<open>\<^verbatim>\<open>MaxInt16 = int16(^uint16(0) >> 1)\<close>, \<^verbatim>\<open>MinInt16 = -MaxInt16 - 1\<close>.\<close>

definition MaxInt16 :: int16 where
  "MaxInt16 = ucast (drop_bit 1 (NOT (0 :: 16 word)))"

definition MinInt16 :: int16 where
  "MinInt16 = - MaxInt16 - 1"

text \<open>Go's integer division truncates towards zero.\<close>

definition quo :: "int \<Rightarrow> int \<Rightarrow> int" where
  "quo a b = sgn a * sgn b * (\<bar>a\<bar> div \<bar>b\<bar>)"

section \<open>Slices and their backing arrays\<close>

text \<open>
  A Go slice is a header (pointer, length, capacity) over a backing array, and several
  headers can share one array. The store maps a cell (array, position) to a sample;
  \<open>fresh\<close> is the next array that an allocation hands out. A header names its array,
  the position of its first element, its length and its capacity.
\<close>

record heap =
  mem :: "nat \<times> nat \<Rightarrow> int16"
  fresh :: nat

record slice =
  arr :: nat
  off :: nat
  len :: nat
  cap :: nat

definition load :: "heap \<Rightarrow> slice \<Rightarrow> nat \<Rightarrow> int16" where
  "load h s i = mem h (arr s, off s + i)"

definition store :: "heap \<Rightarrow> slice \<Rightarrow> nat \<Rightarrow> int16 \<Rightarrow> heap" where
  "store h s i v = h\<lparr>mem := (mem h)((arr s, off s + i) := v)\<rparr>"

text \<open>The samples visible through a header: \<^verbatim>\<open>s[0], ..., s[len(s)-1]\<close>.\<close>

definition contents :: "heap \<Rightarrow> slice \<Rightarrow> int16 list" where
  "contents h s = map (load h s) [0..<len s]"

text \<open>\<^verbatim>\<open>s[i]\<close> as a value and as the target of an assignment: both check the length.\<close>

definition index :: "heap \<Rightarrow> slice \<Rightarrow> int \<Rightarrow> panic + int16" where
  "index h s i =
     (if 0 \<le> i \<and> i < int (len s) then Inr (load h s (nat i)) else Inl IndexOutOfRange)"

definition assign :: "heap \<Rightarrow> slice \<Rightarrow> int \<Rightarrow> int16 \<Rightarrow> panic + heap" where
  "assign h s i v =
     (if 0 \<le> i \<and> i < int (len s) then Inr (store h s (nat i) v) else Inl IndexOutOfRange)"

text \<open>\<^verbatim>\<open>s[lo:hi]\<close>: the bounds are checked against the capacity, not the length.\<close>

definition reslice :: "slice \<Rightarrow> int \<Rightarrow> int \<Rightarrow> panic + slice" where
  "reslice s lo hi =
     (if 0 \<le> lo \<and> lo \<le> hi \<and> hi \<le> int (cap s)
      then Inr \<lparr>arr = arr s, off = off s + nat lo, len = nat (hi - lo), cap = cap s - nat lo\<rparr>
      else Inl SliceBoundsOutOfRange)"

text \<open>
  \<^verbatim>\<open>make([]int16, 0)\<close> allocates nothing: a header of length and capacity 0, through
  which no cell is ever read or written.
\<close>

definition empty_slice :: slice where
  "empty_slice = \<lparr>arr = 0, off = 0, len = 0, cap = 0\<rparr>"

fun store_list :: "heap \<Rightarrow> slice \<Rightarrow> nat \<Rightarrow> int16 list \<Rightarrow> heap" where
  "store_list h s k [] = h"
| "store_list h s k (x # xs) = store_list (store h s k x) s (Suc k) xs"

text \<open>
  \<^verbatim>\<open>append(s, xs...)\<close>. When the capacity suffices the values are written behind the
  last element in the array of \<open>s\<close>, which every header over that array sees; otherwise
  a new zeroed array is allocated and the old elements are copied into it. The values
  \<open>xs\<close> are read before anything is written. How much room a new array gets is left
  to the run time: it is the parameter \<open>g\<close> (old capacity, needed length), never less
  than the needed length.
\<close>

type_synonym growth = "nat \<Rightarrow> nat \<Rightarrow> nat"

definition alloc :: "heap \<Rightarrow> heap" where
  "alloc h = \<lparr>mem = (\<lambda>(a, j). if a = fresh h then 0 else mem h (a, j)), fresh = Suc (fresh h)\<rparr>"

definition append_slice :: "growth \<Rightarrow> heap \<Rightarrow> slice \<Rightarrow> int16 list \<Rightarrow> heap \<times> slice" where
  "append_slice g h s xs =
     (let need = len s + length xs in
      if need \<le> cap s then (store_list h s (len s) xs, s\<lparr>len := need\<rparr>)
      else
        (let s' = \<lparr>arr = fresh h, off = 0, len = need, cap = max need (g (cap s) need)\<rparr>
         in (store_list (alloc h) s' 0 (contents h s @ xs), s')))"

section \<open>Clips\<close>

record Clip =
  Samples :: "slice list"
  Name :: string
  SampleRate :: int

text \<open>\<^verbatim>\<open>c.Samples[i]\<close>, with its bounds check.\<close>

definition chan :: "Clip \<Rightarrow> nat \<Rightarrow> panic + slice" where
  "chan c i = (if i < length (Samples c) then Inr (Samples c ! i) else Inl IndexOutOfRange)"

text \<open>
  \<^verbatim>\<open>NewClip\<close>: \<^verbatim>\<open>make([][]int16, numChannels)\<close> panics on a negative count; every
  channel is then set to an empty slice. Name and sample rate keep their zero values.
  (The callers in clip.go pass a 16-bit channel count or the length of an existing
  channel list; a count beyond what the run time allocates is not considered here.)
\<close>

definition NewClip :: "int \<Rightarrow> panic + Clip" where
  "NewClip numChannels =
     (if numChannels < 0 then Inl MakeSliceLenOutOfRange
      else Inr \<lparr>Samples = replicate (nat numChannels) empty_slice, Name = [], SampleRate = 0\<rparr>)"

definition LenPerChannel :: "Clip \<Rightarrow> panic + nat" where
  "LenPerChannel c = (case chan c 0 of Inl p \<Rightarrow> Inl p | Inr c0 \<Rightarrow> Inr (len c0))"

text \<open>
  \<^verbatim>\<open>Duration\<close> converts the length and the rate in 32-bit floating point; that
  arithmetic is the parameter \<open>f\<close>. The length is taken first.
\<close>

definition Duration :: "(nat \<Rightarrow> int \<Rightarrow> 'd) \<Rightarrow> Clip \<Rightarrow> panic + 'd" where
  "Duration f c = (case LenPerChannel c of Inl p \<Rightarrow> Inl p | Inr n \<Rightarrow> Inr (f n (SampleRate c)))"

subsection \<open>Slice and Split\<close>

fun Slice_loop :: "Clip \<Rightarrow> int \<Rightarrow> int \<Rightarrow> slice list \<Rightarrow> nat list \<Rightarrow> panic + slice list" where
  "Slice_loop s startIndex endIndex ts [] = Inr ts"
| "Slice_loop s startIndex endIndex ts (chanNum # rest) =
     (case chan s chanNum of Inl p \<Rightarrow> Inl p
      | Inr sc \<Rightarrow>
          (case reslice sc startIndex endIndex of Inl p \<Rightarrow> Inl p
           | Inr v \<Rightarrow>
               if chanNum < length ts
               then Slice_loop s startIndex endIndex (ts[chanNum := v]) rest
               else Inl IndexOutOfRange))"

definition Slice :: "Clip \<Rightarrow> int \<Rightarrow> int \<Rightarrow> panic + (Clip \<times> error)" where
  "Slice s startIndex endIndex =
     (case NewClip (int (length (Samples s))) of Inl p \<Rightarrow> Inl p
      | Inr t \<Rightarrow>
          (case chan s 0 of Inl p \<Rightarrow> Inl p
           | Inr s0 \<Rightarrow>
               (let endIndex' = (if endIndex > int (len s0) then int (len s0) else endIndex)
                in case Slice_loop s startIndex endIndex' (Samples t) [0..<length (Samples s)] of
                     Inl p \<Rightarrow> Inl p
                   | Inr ts \<Rightarrow> Inr (t\<lparr>Samples := ts\<rparr>, None))))"

text \<open>
  \<^verbatim>\<open>Split\<close>: the result is a slice of clip pointers, nil (\<open>None\<close>) until assigned.
  The first channel is indexed before the division, and the division before the
  allocation of the result. \<^verbatim>\<open>make([]*Clip, numDivisions)\<close> panics on a negative count
  and on a count beyond what the run time allocates. That bound depends on the platform:
  it is the parameter \<open>room\<close>, the largest number of clip pointers that \<^verbatim>\<open>make\<close>
  serves. It lies below the largest value of \<^verbatim>\<open>int\<close>, so a count that \<^verbatim>\<open>make\<close> serves is
  one that an \<^verbatim>\<open>int\<close> holds.
\<close>

fun Split_loop :: "Clip \<Rightarrow> int \<Rightarrow> Clip option list \<Rightarrow> nat list \<Rightarrow> panic + (Clip option list \<times> error)" where
  "Split_loop c stepLen subSamples [] = Inr (subSamples, None)"
| "Split_loop c stepLen subSamples (i # rest) =
     (let start = stepLen * int i; stop = start + stepLen
      in case Slice c start stop of Inl p \<Rightarrow> Inl p
         | Inr (t, err) \<Rightarrow>
             if i < length subSamples
             then (case err of
                     Some e \<Rightarrow> Inr (subSamples[i := Some t], Some e)
                   | None \<Rightarrow> Split_loop c stepLen (subSamples[i := Some t]) rest)
             else Inl IndexOutOfRange)"

definition Split :: "nat \<Rightarrow> Clip \<Rightarrow> int \<Rightarrow> panic + (Clip option list \<times> error)" where
  "Split room c numDivisions =
     (case chan c 0 of Inl p \<Rightarrow> Inl p
      | Inr c0 \<Rightarrow>
          if numDivisions = 0 then Inl DivideByZero
          else if numDivisions < 0 \<or> int room < numDivisions then Inl MakeSliceLenOutOfRange
          else Split_loop c (quo (int (len c0)) numDivisions)
                 (replicate (nat numDivisions) None) [0..<nat numDivisions])"

subsection \<open>Stretch\<close>

text \<open>
  The inner loop of \<^verbatim>\<open>Stretch\<close> runs \<open>i\<close> from its start value down to 0. The
  zeros appended are the contents of a temporary \<^verbatim>\<open>make([]int16, sampleLen)\<close>.
\<close>

fun Stretch_inner :: "heap \<Rightarrow> slice \<Rightarrow> nat \<Rightarrow> panic + heap" where
  "Stretch_inner h s i =
     (case index h s (int i) of Inl p \<Rightarrow> Inl p
      | Inr v \<Rightarrow>
          (case assign h s (int (i * 2)) v of Inl p \<Rightarrow> Inl p
           | Inr h1 \<Rightarrow>
               (case assign h1 s (int i) 0 of Inl p \<Rightarrow> Inl p
                | Inr h2 \<Rightarrow> (case i of 0 \<Rightarrow> Inr h2 | Suc j \<Rightarrow> Stretch_inner h2 s j))))"

fun Stretch_loop :: "growth \<Rightarrow> nat \<Rightarrow> heap \<Rightarrow> slice list \<Rightarrow> nat list \<Rightarrow> panic + (heap \<times> slice list)" where
  "Stretch_loop g sampleLen h samples [] = Inr (h, samples)"
| "Stretch_loop g sampleLen h samples (chanNum # rest) =
     (if chanNum < length samples
      then
        (let r = append_slice g h (samples ! chanNum) (replicate sampleLen 0);
             samples1 = samples[chanNum := snd r]
         in case samples1 of [] \<Rightarrow> Inl IndexOutOfRange
            | s0 # _ \<Rightarrow>
                (case Stretch_inner (fst r) (samples1 ! chanNum) (len s0) of Inl p \<Rightarrow> Inl p
                 | Inr h2 \<Rightarrow> Stretch_loop g sampleLen h2 samples1 rest))
      else Inl IndexOutOfRange)"

definition Stretch :: "growth \<Rightarrow> heap \<Rightarrow> Clip \<Rightarrow> panic + (heap \<times> Clip)" where
  "Stretch g h c =
     (case chan c 0 of Inl p \<Rightarrow> Inl p
      | Inr c0 \<Rightarrow>
          (case Stretch_loop g (len c0) h (Samples c) [0..<length (Samples c)] of Inl p \<Rightarrow> Inl p
           | Inr (h', samples) \<Rightarrow> Inr (h', c\<lparr>Samples := samples\<rparr>)))"

subsection \<open>Append and Mix\<close>

text \<open>
  The two operands are two clip objects; their channels may lie in the same arrays.
  \<^verbatim>\<open>Append\<close> replaces each header of the target by the result of \<^verbatim>\<open>append\<close>.
\<close>

fun Append_loop :: "growth \<Rightarrow> heap \<Rightarrow> slice list \<Rightarrow> Clip \<Rightarrow> nat list \<Rightarrow> panic + (heap \<times> slice list)" where
  "Append_loop g h samples source [] = Inr (h, samples)"
| "Append_loop g h samples source (chanNum # rest) =
     (if chanNum < length samples
      then
        (case chan source chanNum of Inl p \<Rightarrow> Inl p
         | Inr sc \<Rightarrow>
             (let r = append_slice g h (samples ! chanNum) (contents h sc)
              in Append_loop g (fst r) (samples[chanNum := snd r]) source rest))
      else Inl IndexOutOfRange)"

definition Append :: "growth \<Rightarrow> heap \<Rightarrow> Clip \<Rightarrow> Clip \<Rightarrow> panic + (heap \<times> Clip \<times> error)" where
  "Append g h target source =
     (if length (Samples target) \<noteq> length (Samples source)
      then Inr (h, target, Some ''Clips have varying number of channels.'')
      else case Append_loop g h (Samples target) source [0..<length (Samples target)] of
             Inl p \<Rightarrow> Inl p
           | Inr (h', samples) \<Rightarrow> Inr (h', target\<lparr>Samples := samples\<rparr>, None))"

text \<open>
  The body of the loop of \<^verbatim>\<open>mix\<close>: \<open>sample\<close> is read from \<open>t\<close>, \<open>sample2\<close> from
  \<open>s\<close>; the first case of the switch that holds is taken.
\<close>

definition mix_sample :: "int16 \<Rightarrow> int16 \<Rightarrow> int16" where
  "mix_sample sample sample2 =
     (let mixed = sample + sample2
      in if 0 < sint sample2 \<and> sint mixed < sint sample then MaxInt16
         else if sint sample2 < 0 \<and> sint sample < sint mixed then MinInt16
         else mixed)"

fun mix_loop :: "heap \<Rightarrow> slice \<Rightarrow> slice \<Rightarrow> nat list \<Rightarrow> panic + heap" where
  "mix_loop h s t [] = Inr h"
| "mix_loop h s t (i # rest) =
     (let sample = load h t i
      in case index h s (int i) of Inl p \<Rightarrow> Inl p
         | Inr sample2 \<Rightarrow>
             (case assign h s (int i) (mix_sample sample sample2) of Inl p \<Rightarrow> Inl p
              | Inr h' \<Rightarrow> mix_loop h' s t rest))"

text \<open>
  \<^verbatim>\<open>mix\<close> receives the two headers by value and returns nothing: the header that
  \<^verbatim>\<open>append\<close> returns lives in the local variable \<open>s\<close> only, and what the caller
  gets back is the store.
\<close>

definition mix :: "growth \<Rightarrow> heap \<Rightarrow> slice \<Rightarrow> slice \<Rightarrow> panic + heap" where
  "mix g h s t =
     (let r = (if len t > len s then append_slice g h s (replicate (len t - len s) 0) else (h, s))
      in mix_loop (fst r) (snd r) t [0..<len t])"

fun Mix_loop :: "growth \<Rightarrow> heap \<Rightarrow> Clip \<Rightarrow> Clip \<Rightarrow> nat list \<Rightarrow> panic + heap" where
  "Mix_loop g h s t [] = Inr h"
| "Mix_loop g h s t (chanNum # rest) =
     (case chan s chanNum of Inl p \<Rightarrow> Inl p
      | Inr sc \<Rightarrow>
          (case chan t chanNum of Inl p \<Rightarrow> Inl p
           | Inr tc \<Rightarrow>
               (case mix g h sc tc of Inl p \<Rightarrow> Inl p
                | Inr h' \<Rightarrow> Mix_loop g h' s t rest)))"

definition Mix :: "growth \<Rightarrow> heap \<Rightarrow> Clip \<Rightarrow> Clip \<Rightarrow> panic + (heap \<times> Clip \<times> error)" where
  "Mix g h s t =
     (if length (Samples s) \<noteq> length (Samples t)
      then Inr (h, s, Some ''Clips have varying number of channels.'')
      else case Mix_loop g h s t [0..<length (Samples s)] of
             Inl p \<Rightarrow> Inl p
           | Inr h' \<Rightarrow> Inr (h', s, None))"

text \<open>
  The saturating sum in the words of the specification: \<open>raw = a + b\<close> with
  wrap-around; the maximum when \<open>b > 0\<close> and \<open>raw < a\<close>; the minimum when \<open>b < 0\<close>
  and \<open>raw > a\<close>; otherwise \<open>raw\<close>.
\<close>

definition saturated_sum :: "int16 \<Rightarrow> int16 \<Rightarrow> int16" where
  "saturated_sum a b =
     (let raw = a + b
      in if 0 < sint b \<and> sint raw < sint a then 32767
         else if sint b < 0 \<and> sint a < sint raw then - 32768
         else raw)"

subsection \<open>The wave container\<close>

text \<open>
  Modelled from the spec: the package \<^verbatim>\<open>encoding/wave\<close> is not among the sources.
  A container exposes an identifier, a channel count (16 bits), a sample rate
  (32 bits) and a flat sequence of samples; clip.go reads and writes these fields only.
\<close>

record wave_File =
  FileName :: string
  Header_NumChannels :: int16
  Header_SampleRate :: int32
  wave_Samples :: "int16 list"

text \<open>
  Modelled from the spec: \<^verbatim>\<open>wave.NewFile\<close> is not among the sources. A new container
  carries the given identifier, a zero header and no samples.
\<close>

definition wave_NewFile :: "string \<Rightarrow> wave_File" where
  "wave_NewFile fileName =
     \<lparr>FileName = fileName, Header_NumChannels = 0, Header_SampleRate = 0, wave_Samples = []\<rparr>"

text \<open>
  Modelled from the spec: \<^verbatim>\<open>UpdateHeader\<close> is not among the sources. It finalizes the
  length-derived header fields; identifier, channel count, sample rate and samples are
  not among them.
\<close>

definition wave_UpdateHeader :: "wave_File \<Rightarrow> wave_File" where
  "wave_UpdateHeader w = w"

text \<open>\<^verbatim>\<open>strings.Contains\<close>.\<close>

fun Contains :: "string \<Rightarrow> string \<Rightarrow> bool" where
  "Contains [] substr = (substr = [])"
| "Contains (x # xs) substr = (prefix substr (x # xs) \<or> Contains xs substr)"

text \<open>Go's remainder has the sign of the dividend.\<close>

definition rem :: "int \<Rightarrow> int \<Rightarrow> int" where
  "rem a b = a - b * quo a b"

fun interlace_chans :: "heap \<Rightarrow> Clip \<Rightarrow> nat \<Rightarrow> int16 list \<Rightarrow> nat list \<Rightarrow> panic + int16 list" where
  "interlace_chans h c offset samples [] = Inr samples"
| "interlace_chans h c offset samples (chanNum # rest) =
     (case chan c chanNum of Inl p \<Rightarrow> Inl p
      | Inr sc \<Rightarrow>
          (case index h sc (int offset) of Inl p \<Rightarrow> Inl p
           | Inr v \<Rightarrow> interlace_chans h c offset (samples @ [v]) rest))"

fun interlace :: "heap \<Rightarrow> Clip \<Rightarrow> int16 list \<Rightarrow> nat list \<Rightarrow> panic + int16 list" where
  "interlace h c samples [] = Inr samples"
| "interlace h c samples (offset # rest) =
     (case interlace_chans h c offset samples [0..<length (Samples c)] of Inl p \<Rightarrow> Inl p
      | Inr samples' \<Rightarrow> interlace h c samples' rest)"

definition NewWaveFromClip :: "heap \<Rightarrow> Clip \<Rightarrow> panic + wave_File" where
  "NewWaveFromClip h c =
     (let fileName = (if \<not> Contains (Name c) ''.wav'' then Name c @ ''.wav'' else Name c);
          w = wave_NewFile fileName;
          w = w\<lparr>Header_NumChannels := of_nat (length (Samples c)),
                Header_SampleRate := of_int (SampleRate c)\<rparr>
      in case chan c 0 of Inl p \<Rightarrow> Inl p
         | Inr c0 \<Rightarrow>
             (case interlace h c (wave_Samples w) [0..<len c0] of Inl p \<Rightarrow> Inl p
              | Inr samples \<Rightarrow> Inr (wave_UpdateHeader (w\<lparr>wave_Samples := samples\<rparr>))))"

text \<open>
  \<^verbatim>\<open>NewClipFromWave\<close>. Opening the file is the parameter \<open>OpenFile\<close>: an error
  message or the container. The name is assigned to the clip made by \<^verbatim>\<open>new(Clip)\<close>;
  the variable \<open>c\<close> is then bound to the clip that \<^verbatim>\<open>NewClip\<close> returns. The loop runs
  \<open>i\<close> over the positions of the flat sequence.
\<close>

fun deinterlace :: "growth \<Rightarrow> int \<Rightarrow> heap \<Rightarrow> slice list \<Rightarrow> nat \<Rightarrow> int16 list \<Rightarrow> panic + (heap \<times> slice list)" where
  "deinterlace g numChannels h samples i [] = Inr (h, samples)"
| "deinterlace g numChannels h samples i (sample # rest) =
     (if numChannels = 0 then Inl DivideByZero
      else
        (let k = rem (int i) numChannels
         in if 0 \<le> k \<and> k < int (length samples)
            then
              (let r = append_slice g h (samples ! nat k) [sample]
               in deinterlace g numChannels (fst r) (samples[nat k := snd r]) (Suc i) rest)
            else Inl IndexOutOfRange))"

definition NewClipFromWave :: "growth \<Rightarrow> (string \<Rightarrow> string + wave_File) \<Rightarrow> heap \<Rightarrow> string \<Rightarrow> panic + (heap \<times> Clip \<times> error)" where
  "NewClipFromWave g OpenFile h waveFileName =
     (let c = \<lparr>Samples = [], Name = [], SampleRate = 0\<rparr>
      in case OpenFile waveFileName of
           Inl err \<Rightarrow> Inr (h, c, Some err)
         | Inr w \<Rightarrow>
             (let c = c\<lparr>Name := FileName w\<rparr>;
                  numChannels = sint (Header_NumChannels w)
              in case NewClip (sint (Header_NumChannels w)) of Inl p \<Rightarrow> Inl p
                 | Inr c \<Rightarrow>
                     (let c = c\<lparr>SampleRate := sint (Header_SampleRate w)\<rparr>
                      in case deinterlace g numChannels h (Samples c) 0 (wave_Samples w) of
                           Inl p \<Rightarrow> Inl p
                         | Inr (h', samples) \<Rightarrow> Inr (h', c\<lparr>Samples := samples\<rparr>, None))))"

section \<open>Regions of the store\<close>

text \<open>
  The cells a header shows (\<open>extent\<close>), the cells it may reach by \<^verbatim>\<open>append\<close> or by
  re-slicing (\<open>window\<close>), and the difference of the two (\<open>spare\<close>). A header is
  valid in a store when its length is within its capacity and its array, unless the
  capacity is 0, has been allocated.
\<close>

definition extent :: "slice \<Rightarrow> (nat \<times> nat) set" where
  "extent s = {arr s} \<times> {off s ..< off s + len s}"

definition window :: "slice \<Rightarrow> (nat \<times> nat) set" where
  "window s = {arr s} \<times> {off s ..< off s + cap s}"

definition spare :: "slice \<Rightarrow> (nat \<times> nat) set" where
  "spare s = {arr s} \<times> {off s + len s ..< off s + cap s}"

definition valid :: "heap \<Rightarrow> slice \<Rightarrow> bool" where
  "valid h s \<longleftrightarrow> len s \<le> cap s \<and> (cap s = 0 \<or> arr s < fresh h)"

text \<open>
  Headers that keep out of each other's way. \<open>own_room ts\<close>: no spare cell of a header
  of \<open>ts\<close> lies in the window of another header of \<open>ts\<close>. \<open>clear_of ts ss\<close>: no
  spare cell of a header of \<open>ts\<close> is shown by a header of \<open>ss\<close>. \<open>apart ts ss\<close>: no
  cell shown by a header of \<open>ts\<close> is shown by another header of \<open>ts\<close> or by a header
  of \<open>ss\<close>.
\<close>

definition own_room :: "slice list \<Rightarrow> bool" where
  "own_room ts \<longleftrightarrow>
     (\<forall>i<length ts. \<forall>j<length ts. i \<noteq> j \<longrightarrow> spare (ts ! i) \<inter> window (ts ! j) = {})"

definition clear_of :: "slice list \<Rightarrow> slice list \<Rightarrow> bool" where
  "clear_of ts ss \<longleftrightarrow> (\<forall>a\<in>set ts. \<forall>b\<in>set ss. spare a \<inter> extent b = {})"

definition apart :: "slice list \<Rightarrow> slice list \<Rightarrow> bool" where
  "apart ts ss \<longleftrightarrow>
     (\<forall>i<length ts. \<forall>j<length ts. i \<noteq> j \<longrightarrow> extent (ts ! i) \<inter> extent (ts ! j) = {}) \<and>
     (\<forall>a\<in>set ts. \<forall>b\<in>set ss. extent a \<inter> extent b = {})"

text \<open>The header of \<^verbatim>\<open>sc[lo : lo+n]\<close>, and the clip \<^verbatim>\<open>Slice\<close> builds from such headers.\<close>

definition shifted :: "nat \<Rightarrow> nat \<Rightarrow> slice \<Rightarrow> slice" where
  "shifted lo n sc = \<lparr>arr = arr sc, off = off sc + lo, len = n, cap = cap sc - lo\<rparr>"

definition segment :: "Clip \<Rightarrow> nat \<Rightarrow> nat \<Rightarrow> Clip" where
  "segment c lo n = \<lparr>Samples = map (shifted lo n) (Samples c), Name = [], SampleRate = 0\<rparr>"

text \<open>
  Of a flat sequence whose first element has position \<open>i\<close>: the elements at the
  positions congruent to \<open>k\<close> modulo \<open>n\<close>, in their order.
\<close>

fun pick :: "nat \<Rightarrow> nat \<Rightarrow> 'a list \<Rightarrow> nat \<Rightarrow> 'a list" where
  "pick n i [] k = []"
| "pick n i (x # xs) k = (if i mod n = k then x # pick n (Suc i) xs k else pick n (Suc i) xs k)"

section \<open>Concrete stores and clips\<close>

text \<open>
  A store given by its arrays, and two growth policies, for the examples below.
\<close>

definition heap_of :: "int16 list list \<Rightarrow> heap" where
  "heap_of arrays =
     \<lparr>mem = (\<lambda>(a, j). if a < length arrays \<and> j < length (arrays ! a) then arrays ! a ! j else 0),
      fresh = length arrays\<rparr>"

definition whole :: "nat \<Rightarrow> nat \<Rightarrow> slice" where
  "whole a n = \<lparr>arr = a, off = 0, len = n, cap = n\<rparr>"

text \<open>A clip of \<open>n\<close> channels of one sample each, every channel in an array of its own.\<close>

definition one_each :: "nat \<Rightarrow> heap" where
  "one_each n = heap_of (replicate n [7])"

definition many_channels :: "nat \<Rightarrow> Clip" where
  "many_channels n = \<lparr>Samples = map (\<lambda>a. whole a 1) [0..<n], Name = ''wide'', SampleRate = 8\<rparr>"

definition exact_fit :: growth where
  "exact_fit old need = need"

definition doubling :: growth where
  "doubling old need = (if 2 * old < need then need else 2 * old)"

text \<open>
  What a caller observes of a clip in a store: the samples of each channel. Of the
  result of an operation: the panic, or name, rate, samples and the error returned.
\<close>

definition view :: "heap \<Rightarrow> Clip \<Rightarrow> int16 list list" where
  "view h c = map (contents h) (Samples c)"

definition outcome :: "panic + (heap \<times> Clip \<times> error) \<Rightarrow> panic + (string \<times> int \<times> int16 list list \<times> error)" where
  "outcome r = (case r of Inl p \<Rightarrow> Inl p | Inr (h, c, e) \<Rightarrow> Inr (Name c, SampleRate c, view h c, e))"

text \<open>What another clip shows in the store that an operation leaves.\<close>

definition seen_after :: "panic + (heap \<times> Clip \<times> error) \<Rightarrow> Clip \<Rightarrow> panic + int16 list list" where
  "seen_after r c = (case r of Inl p \<Rightarrow> Inl p | Inr (h, _, _) \<Rightarrow> Inr (view h c))"

text \<open>A file system that holds one container, under its own identifier.\<close>

definition only_file :: "wave_File \<Rightarrow> string \<Rightarrow> string + wave_File" where
  "only_file w name = (if name = FileName w then Inr w else Inl ''no such file'')"

section \<open>Basic facts\<close>

lemma MaxInt16_value: "MaxInt16 = 32767"
  by (simp add: MaxInt16_def mask_eq_exp_minus_1)

lemma MinInt16_value: "MinInt16 = - 32768"
  by (simp add: MinInt16_def MaxInt16_value)

lemma len_append_slice: "len (snd (append_slice g h s xs)) = len s + length xs"
  by (simp add: append_slice_def Let_def)

lemma upt_first: "0 < n \<Longrightarrow> [0..<n] = 0 # [1..<n]"
  by (simp add: upt_conv_Cons)

section \<open>Stretch\<close>

lemma Stretch_loop_first:
  "samples \<noteq> [] \<Longrightarrow> Stretch_loop g n h samples (0 # rest) = Inl IndexOutOfRange"
  by (cases samples) (simp_all add: Let_def len_append_slice index_def)

text \<open>
  Claim C1 states that \<^verbatim>\<open>Stretch\<close> doubles every channel of a clip with channels of
  equal length, with the original sample \<open>k\<close> at position \<open>2k\<close> and zero at every odd
  position. The code does not get that far. For the first channel the inner loop
  starts at \<^verbatim>\<open>i = len(c.Samples[0])\<close>, read after that channel has been extended, so
  its first step reads one position past the end; a clip without channels fails at
  \<^verbatim>\<open>c.Samples[0]\<close> already. On every clip, in every store, \<^verbatim>\<open>Stretch\<close> panics with an
  index out of range.
\<close>

theorem Stretch_panics: "Stretch g h c = Inl IndexOutOfRange"
proof (cases "Samples c")
  case Nil
  then show ?thesis by (simp add: Stretch_def chan_def)
next
  case (Cons a list)
  then have "[0..<length (Samples c)] = 0 # [1..<length (Samples c)]"
    by (intro upt_first) simp
  with Cons show ?thesis
    by (simp add: Stretch_def chan_def Stretch_loop_first del: Stretch_loop.simps)
qed

section \<open>Split with a division count that is not positive\<close>

text \<open>
  Claim C8 states that \<^verbatim>\<open>Split\<close> with a non-positive division count returns an
  InvalidArgument error value. The code has no such guard: on a clip with one channel
  of four samples and the count 0 the division panics.
\<close>

theorem Split_zero_counterexample:
  "Split (2 ^ 45) \<lparr>Samples = [whole 0 4], Name = [], SampleRate = 8\<rparr> 0 = Inl DivideByZero"
  by (simp add: Split_def chan_def)

text \<open>
  Claim C8 as amended: for every clip, \<^verbatim>\<open>Split\<close> with a non-positive division count
  returns no value at all; it panics, with an index out of range when the clip has no
  channel, else with a division by zero when the count is 0, else (negative count) in
  the allocation of the result.
\<close>

theorem Split_nonpositive_panics:
  "numDivisions \<le> 0 \<Longrightarrow>
   Split room c numDivisions =
     Inl (if Samples c = [] then IndexOutOfRange
          else if numDivisions = 0 then DivideByZero else MakeSliceLenOutOfRange)"
  by (simp add: Split_def chan_def)

text \<open>The amended claim at a negative count.\<close>

theorem Split_nonpositive_panics_witness:
  "(- 1 :: int) \<le> 0 \<and>
   Split (2 ^ 45) \<lparr>Samples = [whole 0 4], Name = [], SampleRate = 8\<rparr> (- 1)
     = Inl MakeSliceLenOutOfRange"
  using Split_nonpositive_panics [of "- 1" "2 ^ 45"
      "\<lparr>Samples = [whole 0 4], Name = [], SampleRate = 8\<rparr>"]
  by simp

section \<open>Clips without channels\<close>

text \<open>
  Claim C10: on a clip with zero channels, every operation that consults the first
  channel (\<^verbatim>\<open>LenPerChannel\<close>, hence \<^verbatim>\<open>Duration\<close> and the encoding \<^verbatim>\<open>NewWaveFromClip\<close>,
  \<^verbatim>\<open>Slice\<close>, \<^verbatim>\<open>Split\<close> and \<^verbatim>\<open>Stretch\<close>) indexes channel 0 of an empty channel list and
  panics with an index out of range; none returns an error value.
\<close>

theorem zero_channels_abort:
  "Samples c = [] \<Longrightarrow>
   LenPerChannel c = Inl IndexOutOfRange \<and>
   Duration f c = Inl IndexOutOfRange \<and>
   NewWaveFromClip h c = Inl IndexOutOfRange \<and>
   Slice c startIndex endIndex = Inl IndexOutOfRange \<and>
   Split room c numDivisions = Inl IndexOutOfRange \<and>
   Stretch g h c = Inl IndexOutOfRange"
  by (simp add: LenPerChannel_def Duration_def NewWaveFromClip_def Slice_def Split_def
      Stretch_def chan_def NewClip_def Let_def)

text \<open>The clip that \<^verbatim>\<open>NewClip(0)\<close> builds has no channels, and the operations abort on it.\<close>

theorem zero_channels_abort_witness:
  "NewClip 0 = Inr \<lparr>Samples = [], Name = [], SampleRate = 0\<rparr> \<and>
   LenPerChannel \<lparr>Samples = [], Name = [], SampleRate = 0\<rparr> = Inl IndexOutOfRange \<and>
   Duration (\<lambda>n r. int n * 1000000000 div r) \<lparr>Samples = [], Name = [], SampleRate = 0\<rparr>
     = Inl IndexOutOfRange \<and>
   NewWaveFromClip (heap_of []) \<lparr>Samples = [], Name = [], SampleRate = 0\<rparr> = Inl IndexOutOfRange \<and>
   Slice \<lparr>Samples = [], Name = [], SampleRate = 0\<rparr> 0 1 = Inl IndexOutOfRange \<and>
   Split (2 ^ 45) \<lparr>Samples = [], Name = [], SampleRate = 0\<rparr> 2 = Inl IndexOutOfRange \<and>
   Stretch exact_fit (heap_of []) \<lparr>Samples = [], Name = [], SampleRate = 0\<rparr> = Inl IndexOutOfRange"
  using zero_channels_abort [of "\<lparr>Samples = [], Name = [], SampleRate = 0\<rparr>"
      "\<lambda>n r. int n * 1000000000 div r" "heap_of []" 0 1 "2 ^ 45" 2 exact_fit]
  by (simp add: NewClip_def)

section \<open>Mix and the length of the first operand\<close>

text \<open>
  Claim C2 states that after \<^verbatim>\<open>s.Mix(t)\<close> every channel of \<open>s\<close> is at least as long
  as the channel of \<open>t\<close>. The comment of \<^verbatim>\<open>Mix\<close> promises the same ("increasing length
  as necessary"), but \<^verbatim>\<open>mix\<close> extends a local copy of the header only. Here \<open>s\<close> has
  one channel \<open>[1]\<close> and \<open>t\<close> one channel \<open>[1, 2]\<close>: afterwards \<open>s\<close> still holds one
  sample, and that sample is unchanged.
\<close>

theorem Mix_leaves_shorter_operand_short:
  "outcome (Mix exact_fit (heap_of [[1], [1, 2]])
      \<lparr>Samples = [whole 0 1], Name = ''s'', SampleRate = 8\<rparr>
      \<lparr>Samples = [whole 1 2], Name = ''t'', SampleRate = 8\<rparr>)
   = Inr (''s'', 8, [[1]], None)"
  by code_simp

section \<open>Decoding a container\<close>

text \<open>
  Claim C5 states that \<^verbatim>\<open>NewClipFromWave\<close> returns a clip with the container's channel
  count and sample rate, named by the container's identifier, whose channel \<open>c\<close> holds
  the flat samples at the positions congruent to \<open>c\<close> modulo the channel count. The code
  assigns the name and then replaces the clip by a new one, so the name is lost: the
  container \<^verbatim>\<open>a.wav\<close> with two channels, rate 8 and samples 1, 2, 3, 4 is decoded to the
  channels \<open>[1, 3]\<close> and \<open>[2, 4]\<close> at rate 8, under the empty name.
\<close>

theorem NewClipFromWave_loses_name:
  "outcome (NewClipFromWave exact_fit
      (only_file \<lparr>FileName = ''a.wav'', Header_NumChannels = 2, Header_SampleRate = 8,
         wave_Samples = [1, 2, 3, 4]\<rparr>) (heap_of []) ''a.wav'')
   = Inr ([], 8, [[1, 3], [2, 4]], None)"
  by code_simp

section \<open>Reading and writing the store\<close>

lemma mem_store [simp]:
  "mem (store h s i v) x = (if x = (arr s, off s + i) then v else mem h x)"
  by (simp add: store_def)

lemma fresh_store [simp]: "fresh (store h s i v) = fresh h"
  by (simp add: store_def)

lemma fresh_store_list [simp]: "fresh (store_list h s k xs) = fresh h"
  by (induction xs arbitrary: h k) simp_all

lemma mem_store_list_pair:
  "mem (store_list h s k xs) (a, j) =
     (if a = arr s \<and> off s + k \<le> j \<and> j < off s + k + length xs
      then xs ! (j - (off s + k)) else mem h (a, j))"
proof (induction xs arbitrary: h k)
  case Nil
  then show ?case by auto
next
  case (Cons y ys)
  show ?case
    by (auto simp: Cons.IH nth_Cons' Suc_diff_le)
qed

lemma mem_store_list:
  "mem (store_list h s k xs) x =
     (if fst x = arr s \<and> off s + k \<le> snd x \<and> snd x < off s + k + length xs
      then xs ! (snd x - (off s + k)) else mem h x)"
  by (cases x) (simp add: mem_store_list_pair)

lemma length_contents [simp]: "length (contents h s) = len s"
  by (simp add: contents_def)

lemma nth_contents [simp]: "i < len s \<Longrightarrow> contents h s ! i = mem h (arr s, off s + i)"
  by (simp add: contents_def load_def)

text \<open>A header shows the same samples in two stores that agree on its extent.\<close>

lemma contents_frame:
  "(\<And>x. x \<in> extent s \<Longrightarrow> mem h' x = mem h x) \<Longrightarrow> contents h' s = contents h s"
  by (rule nth_equalityI) (simp_all add: extent_def)

lemma mem_alloc: "mem (alloc h) x = (if fst x = fresh h then 0 else mem h x)"
  by (cases x) (simp add: alloc_def)

lemma fresh_alloc [simp]: "fresh (alloc h) = Suc (fresh h)"
  by (simp add: alloc_def)

text \<open>
  \<^verbatim>\<open>append\<close>: the header returned shows the old samples followed by the new ones;
  allocated cells outside the spare capacity of the old header keep their values.
\<close>

lemma append_slice_contents:
  "contents (fst (append_slice g h s xs)) (snd (append_slice g h s xs)) = contents h s @ xs"
  by (rule nth_equalityI)
     (auto simp: append_slice_def Let_def mem_store_list nth_append)

lemma append_slice_fresh: "fresh h \<le> fresh (fst (append_slice g h s xs))"
  by (simp add: append_slice_def Let_def)

lemma append_slice_frame:
  "fst x < fresh h \<Longrightarrow> x \<notin> spare s \<Longrightarrow> mem (fst (append_slice g h s xs)) x = mem h x"
  by (cases x) (auto simp: append_slice_def Let_def mem_store_list mem_alloc spare_def)

lemma append_slice_valid:
  "valid h s \<Longrightarrow> valid (fst (append_slice g h s xs)) (snd (append_slice g h s xs))"
  by (auto simp: append_slice_def Let_def valid_def)

lemma append_slice_cells:
  "valid h s \<Longrightarrow> x \<in> window (snd (append_slice g h s xs)) \<Longrightarrow> x \<in> window s \<or> fst x = fresh h"
  by (auto simp: append_slice_def Let_def valid_def window_def split: if_splits)

lemma valid_mono: "valid h s \<Longrightarrow> fresh h \<le> fresh h' \<Longrightarrow> valid h' s"
  by (auto simp: valid_def)

section \<open>Mix leaves the headers of its receiver alone\<close>

lemma mix_loop_total:
  "\<forall>i\<in>set is. i < len s \<Longrightarrow> \<exists>h'. mix_loop h s t is = Inr h'"
  by (induction "is" arbitrary: h) (simp_all add: index_def assign_def Let_def)

lemma mix_total: "\<exists>h'. mix g h s t = Inr h'"
  unfolding mix_def Let_def
  by (rule mix_loop_total) (auto simp: len_append_slice)

lemma Mix_loop_total:
  "\<forall>c\<in>set cs. c < length (Samples s) \<and> c < length (Samples t) \<Longrightarrow>
   \<exists>h'. Mix_loop g h s t cs = Inr h'"
proof (induction cs arbitrary: h)
  case Nil
  then show ?case by simp
next
  case (Cons c cs)
  obtain h1 where "mix g h (Samples s ! c) (Samples t ! c) = Inr h1"
    using mix_total by blast
  with Cons show ?case by (simp add: chan_def)
qed

text \<open>
  Claim C9: for clips \<open>s\<close> and \<open>t\<close> with equally many channels, \<^verbatim>\<open>s.Mix(t)\<close> returns
  without panic and without error, and the clip \<open>s\<close> it leaves is \<open>s\<close> itself, headers
  included: the extension by zeros happens on the header local to \<^verbatim>\<open>mix\<close>, so every
  channel of \<open>s\<close> shows exactly as many samples after the call as before.
\<close>

theorem Mix_keeps_lengths:
  "length (Samples s) = length (Samples t) \<Longrightarrow>
   \<exists>h'. Mix g h s t = Inr (h', s, None) \<and> map length (view h' s) = map length (view h s)"
proof -
  assume eq: "length (Samples s) = length (Samples t)"
  then obtain h' where "Mix_loop g h s t [0..<length (Samples s)] = Inr h'"
    using Mix_loop_total [of "[0..<length (Samples s)]" s t g h] by auto
  with eq show ?thesis by (simp add: Mix_def view_def)
qed

text \<open>
  Claim C9 on a two-channel clip whose second operand is longer on the first channel
  and shorter on the second.
\<close>

theorem Mix_keeps_lengths_witness:
  "length (Samples \<lparr>Samples = [whole 0 2, whole 1 3], Name = ''s'', SampleRate = 8\<rparr>)
     = length (Samples \<lparr>Samples = [whole 2 4, whole 3 1], Name = ''t'', SampleRate = 8\<rparr>) \<and>
   (\<exists>h'. Mix doubling (heap_of [[1, 2], [3, 4, 5], [10, 20, 30, 40], [50]])
            \<lparr>Samples = [whole 0 2, whole 1 3], Name = ''s'', SampleRate = 8\<rparr>
            \<lparr>Samples = [whole 2 4, whole 3 1], Name = ''t'', SampleRate = 8\<rparr>
          = Inr (h', \<lparr>Samples = [whole 0 2, whole 1 3], Name = ''s'', SampleRate = 8\<rparr>, None) \<and>
          map length (view h' \<lparr>Samples = [whole 0 2, whole 1 3], Name = ''s'', SampleRate = 8\<rparr>)
            = map length (view (heap_of [[1, 2], [3, 4, 5], [10, 20, 30, 40], [50]])
                \<lparr>Samples = [whole 0 2, whole 1 3], Name = ''s'', SampleRate = 8\<rparr>))"
  using Mix_keeps_lengths [of "\<lparr>Samples = [whole 0 2, whole 1 3], Name = ''s'', SampleRate = 8\<rparr>"
      "\<lparr>Samples = [whole 2 4, whole 3 1], Name = ''t'', SampleRate = 8\<rparr>" doubling
      "heap_of [[1, 2], [3, 4, 5], [10, 20, 30, 40], [50]]"]
  by simp

section \<open>Slice and Split\<close>

lemma reslice_shifted:
  "lo + n \<le> cap sc \<Longrightarrow> reslice sc (int lo) (int (lo + n)) = Inr (shifted lo n sc)"
  by (simp add: reslice_def shifted_def)

lemma Slice_loop_shifted:
  "\<forall>c\<in>set cs. c < length ts \<and> c < length (Samples s) \<and> lo + n \<le> cap (Samples s ! c) \<Longrightarrow>
   Slice_loop s (int lo) (int (lo + n)) ts cs =
     Inr (map (\<lambda>c. if c \<in> set cs then shifted lo n (Samples s ! c) else ts ! c) [0..<length ts])"
proof (induction cs arbitrary: ts)
  case Nil
  show ?case by (simp add: map_nth)
next
  case (Cons c cs)
  have "\<forall>j\<in>set cs. j < length (ts[c := shifted lo n (Samples s ! c)]) \<and> j < length (Samples s) \<and> lo + n \<le> cap (Samples s ! j)"
    using Cons.prems by simp
  note IH = Cons.IH [OF this]
  show ?case
    using Cons.prems
    by (simp add: chan_def reslice_shifted IH nth_list_update del: of_nat_add)
qed

lemma Slice_segment:
  assumes "Samples s \<noteq> []" "lo + n \<le> len (Samples s ! 0)"
    and "\<forall>sc\<in>set (Samples s). lo + n \<le> cap sc"
  shows "Slice s (int lo) (int (lo + n)) = Inr (segment s lo n, None)"
proof -
  have "Slice_loop s (int lo) (int (lo + n)) (replicate (length (Samples s)) empty_slice)
          [0..<length (Samples s)]
        = Inr (map (shifted lo n) (Samples s))"
    using assms(3)
    by (subst Slice_loop_shifted) (auto intro!: nth_equalityI)
  with assms(1,2) show ?thesis
    by (simp add: Slice_def NewClip_def chan_def segment_def del: of_nat_add)
qed

lemma Split_loop_segments:
  "\<forall>i\<in>set is. i < length subs \<and> Slice c (int step * int i) (int step * int i + int step) = Inr (seg i, None) \<Longrightarrow>
   Split_loop c (int step) subs is =
     Inr (map (\<lambda>i. if i \<in> set is then Some (seg i) else subs ! i) [0..<length subs], None)"
proof (induction "is" arbitrary: subs)
  case Nil
  show ?case by (simp add: map_nth)
next
  case (Cons i "is")
  have "\<forall>j\<in>set is. j < length (subs[i := Some (seg i)]) \<and>
      Slice c (int step * int j) (int step * int j + int step) = Inr (seg j, None)"
    using Cons.prems by simp
  note IH = Cons.IH [OF this]
  show ?case
    using Cons.prems
    by (simp add: IH nth_list_update Let_def)
qed

lemma quo_nat: "0 < n \<Longrightarrow> quo (int L) (int n) = int (L div n)"
  by (cases "L = 0") (simp_all add: quo_def zdiv_int)

lemma contents_shifted:
  "lo + n \<le> len sc \<Longrightarrow> contents h (shifted lo n sc) = take n (drop lo (contents h sc))"
  by (rule nth_equalityI) (simp_all add: shifted_def add.assoc)

lemma concat_chunks:
  "concat (map (\<lambda>i. take k (drop (i * k) xs)) [0..<n]) = take (n * k) xs"
proof (induction n)
  case 0
  show ?case by simp
next
  case (Suc n)
  have "take (Suc n * k) xs = take (n * k) xs @ take k (drop (n * k) xs)"
    using take_add [of "n * k" k xs] by (simp add: add.commute)
  with Suc show ?case by simp
qed


lemma reslice_fails:
  "cap sc < lo + n \<Longrightarrow> reslice sc (int lo) (int (lo + n)) = Inl SliceBoundsOutOfRange"
  by (simp add: reslice_def)

lemma Slice_loop_fails:
  "\<forall>c\<in>set cs. c < length ts \<and> c < length (Samples s) \<Longrightarrow>
   \<exists>c\<in>set cs. cap (Samples s ! c) < lo + n \<Longrightarrow>
   Slice_loop s (int lo) (int (lo + n)) ts cs = Inl SliceBoundsOutOfRange"
proof (induction cs arbitrary: ts)
  case Nil
  then show ?case by simp
next
  case (Cons c cs)
  show ?case
  proof (cases "cap (Samples s ! c) < lo + n")
    case True
    with Cons.prems(1) show ?thesis
      by (simp add: chan_def reslice_fails del: of_nat_add)
  next
    case False
    then have fits: "lo + n \<le> cap (Samples s ! c)" by simp
    from False Cons.prems(2) have later: "\<exists>j\<in>set cs. cap (Samples s ! j) < lo + n"
      by auto
    have "\<forall>j\<in>set cs. j < length (ts[c := shifted lo n (Samples s ! c)]) \<and> j < length (Samples s)"
      using Cons.prems(1) by simp
    from Cons.IH [OF this later] Cons.prems(1) fits show ?thesis
      by (simp add: chan_def reslice_shifted del: of_nat_add)
  qed
qed

lemma Slice_fails:
  assumes "Samples s \<noteq> []" and "lo + n \<le> len (Samples s ! 0)"
    and "\<exists>sc\<in>set (Samples s). cap sc < lo + n"
  shows "Slice s (int lo) (int (lo + n)) = Inl SliceBoundsOutOfRange"
proof -
  from assms(3) obtain c where "c < length (Samples s)" "cap (Samples s ! c) < lo + n"
    by (auto simp: in_set_conv_nth)
  then have "\<exists>c\<in>set [0..<length (Samples s)]. cap (Samples s ! c) < lo + n"
    by (intro bexI [of _ c]) simp_all
  then have "Slice_loop s (int lo) (int (lo + n)) (replicate (length (Samples s)) empty_slice)
          [0..<length (Samples s)] = Inl SliceBoundsOutOfRange"
    by (intro Slice_loop_fails) simp_all
  with assms(1,2) show ?thesis
    by (simp add: Slice_def NewClip_def chan_def del: of_nat_add)
qed

lemma Split_loop_fails:
  "\<forall>i\<in>set is. i < length subs \<and>
      (Slice c (int step * int i) (int step * int i + int step) = Inl p \<or>
       (\<exists>t. Slice c (int step * int i) (int step * int i + int step) = Inr (t, None))) \<Longrightarrow>
   \<exists>i\<in>set is. Slice c (int step * int i) (int step * int i + int step) = Inl p \<Longrightarrow>
   Split_loop c (int step) subs is = Inl p"
proof (induction "is" arbitrary: subs)
  case Nil
  then show ?case by simp
next
  case (Cons i "is")
  show ?case
  proof (cases "Slice c (int step * int i) (int step * int i + int step) = Inl p")
    case True
    then show ?thesis by (simp add: Let_def)
  next
    case False
    with Cons.prems(1) obtain t where
      ok: "Slice c (int step * int i) (int step * int i + int step) = Inr (t, None)"
      by auto
    from False Cons.prems(2) have later:
      "\<exists>j\<in>set is. Slice c (int step * int j) (int step * int j + int step) = Inl p"
      by auto
    have "\<forall>j\<in>set is. j < length (subs[i := Some t]) \<and>
      (Slice c (int step * int j) (int step * int j + int step) = Inl p \<or>
       (\<exists>t. Slice c (int step * int j) (int step * int j + int step) = Inr (t, None)))"
      using Cons.prems(1) by simp
    from Cons.IH [OF this later] ok Cons.prems(1) show ?thesis
      by (simp add: Let_def)
  qed
qed

lemma chunk_bound: "i < n \<Longrightarrow> i * k + k \<le> n * (k :: nat)"
proof -
  assume "i < n"
  then have "Suc i \<le> n" by simp
  then have "Suc i * k \<le> n * k" by (rule mult_le_mono1)
  then show ?thesis by (simp add: add.commute)
qed

lemma Split_too_many:
  "Samples b \<noteq> [] \<Longrightarrow> 0 < n \<Longrightarrow> room < n \<Longrightarrow> Split room b (int n) = Inl MakeSliceLenOutOfRange"
  by (simp add: Split_def chan_def)

lemma Split_short_channel:
  assumes "Samples b \<noteq> []" and "0 < n" and "n \<le> room"
    and "\<exists>ch\<in>set (Samples b). cap ch < n * (len (Samples b ! 0) div n)"
  shows "Split room b (int n) = Inl SliceBoundsOutOfRange"
proof -
  define L where "L = len (Samples b ! 0)"
  define k where "k = L div n"
  have nk: "n * k \<le> L" by (simp add: k_def)
  have each: "Slice b (int k * int i) (int k * int i + int k) = Inl SliceBoundsOutOfRange \<or>
      (\<exists>t. Slice b (int k * int i) (int k * int i + int k) = Inr (t, None))" if i: "i < n" for i
  proof (cases "\<forall>sc\<in>set (Samples b). i * k + k \<le> cap sc")
    case True
    have "i * k + k \<le> len (Samples b ! 0)"
      using chunk_bound [OF i, of k] nk by (simp add: L_def)
    with assms(1) True have "Slice b (int (i * k)) (int (i * k + k)) = Inr (segment b (i * k) k, None)"
      by (intro Slice_segment)
    then show ?thesis by (simp add: mult.commute)
  next
    case False
    then have "\<exists>sc\<in>set (Samples b). cap sc < i * k + k" by (auto simp: not_le)
    moreover have "i * k + k \<le> len (Samples b ! 0)"
      using chunk_bound [OF i, of k] nk by (simp add: L_def)
    ultimately have "Slice b (int (i * k)) (int (i * k + k)) = Inl SliceBoundsOutOfRange"
      using assms(1) by (intro Slice_fails)
    then show ?thesis by (simp add: mult.commute)
  qed
  have last: "Slice b (int k * int (n - 1)) (int k * int (n - 1) + int k) = Inl SliceBoundsOutOfRange"
  proof -
    have e: "(n - 1) * k + k = n * k"
      using assms(2) by (simp add: algebra_simps flip: mult_Suc)
    have "\<exists>sc\<in>set (Samples b). cap sc < (n - 1) * k + k"
      using assms(4) unfolding e by (simp add: k_def L_def)
    moreover have "(n - 1) * k + k \<le> len (Samples b ! 0)"
      unfolding e using nk by (simp add: L_def)
    ultimately have "Slice b (int ((n - 1) * k)) (int ((n - 1) * k + k)) = Inl SliceBoundsOutOfRange"
      using assms(1) by (intro Slice_fails)
    then show ?thesis by (simp add: mult.commute)
  qed
  have "Split_loop b (int k) (replicate n None) [0..<n] = Inl SliceBoundsOutOfRange"
  proof (rule Split_loop_fails)
    show "\<forall>i\<in>set [0..<n]. i < length (replicate n (None :: Clip option)) \<and>
      (Slice b (int k * int i) (int k * int i + int k) = Inl SliceBoundsOutOfRange \<or>
       (\<exists>t. Slice b (int k * int i) (int k * int i + int k) = Inr (t, None)))"
      using each by simp
    show "\<exists>i\<in>set [0..<n]. Slice b (int k * int i) (int k * int i + int k) = Inl SliceBoundsOutOfRange"
      using last assms(2) by (intro bexI [of _ "n - 1"]) simp_all
  qed
  with assms(1,2,3) show ?thesis
    by (simp add: Split_def chan_def quo_nat L_def k_def)
qed

lemma Split_returns:
  assumes "Samples b \<noteq> []" and "0 < n"
    and "n \<le> room"
    and "\<forall>ch\<in>set (Samples b). n * (len (Samples b ! 0) div n) \<le> cap ch"
  shows "\<exists>clips. Split room b (int n) = Inr (map Some clips, None) \<and> length clips = n \<and>
           (\<forall>i<n. contents h (Samples (clips ! i) ! 0) =
                    take (len (Samples b ! 0) div n)
                      (drop (i * (len (Samples b ! 0) div n)) (contents h (Samples b ! 0)))) \<and>
           concat (map (\<lambda>t. contents h (Samples t ! 0)) clips) =
             take (n * (len (Samples b ! 0) div n)) (contents h (Samples b ! 0)) \<and>
           length (concat (map (\<lambda>t. contents h (Samples t ! 0)) clips)) =
             len (Samples b ! 0) - len (Samples b ! 0) mod n"
proof -
  define L where "L = len (Samples b ! 0)"
  define k where "k = L div n"
  define clips where "clips = map (\<lambda>i. segment b (i * k) k) [0..<n]"
  have nk: "n * k \<le> L"
    by (simp add: k_def)
  have bound: "i * k + k \<le> n * k" if "i < n" for i
  proof -
    from that have "Suc i \<le> n" by simp
    then have "Suc i * k \<le> n * k" by (rule mult_le_mono1)
    then show ?thesis by (simp add: add.commute)
  qed
  have slice: "Slice b (int k * int i) (int k * int i + int k) = Inr (segment b (i * k) k, None)"
    if "i < n" for i
  proof -
    have "Slice b (int (i * k)) (int (i * k + k)) = Inr (segment b (i * k) k, None)"
    proof (rule Slice_segment)
      show "Samples b \<noteq> []" by (rule assms(1))
      show "i * k + k \<le> len (Samples b ! 0)"
        using bound [OF that] nk by (simp add: L_def)
      show "\<forall>sc\<in>set (Samples b). i * k + k \<le> cap sc"
      proof
        fix sc assume "sc \<in> set (Samples b)"
        with assms(4) have "n * k \<le> cap sc" by (simp add: k_def L_def)
        with bound [OF that] show "i * k + k \<le> cap sc" by simp
      qed
    qed
    then show ?thesis by (simp add: mult.commute)
  qed
  have "Split_loop b (int k) (replicate n None) [0..<n] =
      Inr (map (\<lambda>i. if i \<in> set [0..<n] then Some (segment b (i * k) k) else replicate n None ! i)
             [0..<length (replicate n (None :: Clip option))], None)"
    by (rule Split_loop_segments) (simp add: slice)
  then have loop: "Split_loop b (int k) (replicate n None) [0..<n] = Inr (map Some clips, None)"
    by (simp add: clips_def cong: map_cong)
  have split: "Split room b (int n) = Inr (map Some clips, None)"
    using assms(1,2,3) loop by (simp add: Split_def chan_def quo_nat L_def k_def)
  have seg: "contents h (Samples (clips ! i) ! 0) = take k (drop (i * k) (contents h (Samples b ! 0)))"
    if "i < n" for i
  proof -
    have "i * k + k \<le> len (Samples b ! 0)"
      using bound [OF that] nk by (simp add: L_def)
    then show ?thesis
      using that assms(1) by (simp add: clips_def segment_def contents_shifted)
  qed
  have "map (\<lambda>t. contents h (Samples t ! 0)) clips
      = map (\<lambda>i. take k (drop (i * k) (contents h (Samples b ! 0)))) [0..<n]"
    using seg by (intro nth_equalityI) (simp_all add: clips_def)
  then have cat: "concat (map (\<lambda>t. contents h (Samples t ! 0)) clips)
      = take (n * k) (contents h (Samples b ! 0))"
    by (simp add: concat_chunks)
  have "n * k = L - L mod n"
    by (simp add: k_def minus_mod_eq_mult_div)
  with nk have "length (take (n * k) (contents h (Samples b ! 0))) = L - L mod n"
    by (simp add: L_def)
  with split seg cat show ?thesis
    unfolding L_def [symmetric] k_def [symmetric]
    by (intro exI [of _ clips]) (simp add: clips_def L_def k_def)
qed

text \<open>
  Claim C7 states, for every clip and every division count \<open>n > 0\<close>, that \<^verbatim>\<open>Split\<close>
  returns \<open>n\<close> clips whose first channels, concatenated, are the first
  \<open>n * (len div n)\<close> samples of the first channel. Three calls in which \<^verbatim>\<open>Split\<close>
  returns nothing, the bound of \<^verbatim>\<open>make\<close> taken as \<open>2 ^ 45\<close> pointers: on a clip whose
  second channel (capacity 1) is shorter than a segment of the first (four samples, two
  segments), re-slicing the second channel panics; on the clip without channels the
  first channel is missing; and with the count \<open>2 ^ 62\<close> the allocation of the result
  panics.
\<close>

theorem Split_counterexample:
  "Split (2 ^ 45) \<lparr>Samples = [whole 0 4, whole 1 1], Name = [], SampleRate = 8\<rparr> 2
     = Inl SliceBoundsOutOfRange \<and>
   Split (2 ^ 45) \<lparr>Samples = [], Name = [], SampleRate = 8\<rparr> 1 = Inl IndexOutOfRange \<and>
   Split (2 ^ 45) \<lparr>Samples = [whole 0 4], Name = [], SampleRate = 8\<rparr> (2 ^ 62)
     = Inl MakeSliceLenOutOfRange"
proof (intro conjI)
  have "Split (2 ^ 45) \<lparr>Samples = [whole 0 4, whole 1 1], Name = [], SampleRate = 8\<rparr> (int 2)
     = Inl SliceBoundsOutOfRange"
    by (rule Split_short_channel) (simp_all add: whole_def)
  then show "Split (2 ^ 45) \<lparr>Samples = [whole 0 4, whole 1 1], Name = [], SampleRate = 8\<rparr> 2
     = Inl SliceBoundsOutOfRange"
    by simp
  show "Split (2 ^ 45) \<lparr>Samples = [], Name = [], SampleRate = 8\<rparr> 1 = Inl IndexOutOfRange"
    by (simp add: Split_def chan_def)
  show "Split (2 ^ 45) \<lparr>Samples = [whole 0 4], Name = [], SampleRate = 8\<rparr> (2 ^ 62)
     = Inl MakeSliceLenOutOfRange"
    by (simp add: Split_def chan_def)
qed

text \<open>
  Claim C7 as amended: for every clip with at least one channel and every \<open>n > 0\<close>,
  with \<open>len\<close> the length of the first channel and \<open>room\<close> the largest number of
  clip pointers that \<^verbatim>\<open>make\<close> serves. If \<open>n\<close> exceeds \<open>room\<close>, \<^verbatim>\<open>Split\<close> panics in the
  allocation of its result. Otherwise, if some channel has a capacity below
  \<open>n * (len div n)\<close>, \<^verbatim>\<open>Split\<close> panics with slice bounds out of range. Otherwise (as
  when the channels are equally long) \<^verbatim>\<open>Split\<close> returns \<open>n\<close> clips and no error; the
  first channel of the \<open>i\<close>-th clip holds the \<open>len div n\<close> samples from position
  \<open>i * (len div n)\<close> on; concatenated in order they are exactly the first
  \<open>n * (len div n)\<close> samples of the first channel, that is all but the last
  \<open>len mod n\<close>, which are in no segment.
\<close>

theorem Split_segments:
  assumes "Samples b \<noteq> []" and "0 < n"
  shows "(room < n \<longrightarrow> Split room b (int n) = Inl MakeSliceLenOutOfRange) \<and>
         (n \<le> room \<and> (\<exists>ch\<in>set (Samples b). cap ch < n * (len (Samples b ! 0) div n)) \<longrightarrow>
            Split room b (int n) = Inl SliceBoundsOutOfRange) \<and>
         (n \<le> room \<and> (\<forall>ch\<in>set (Samples b). n * (len (Samples b ! 0) div n) \<le> cap ch) \<longrightarrow>
            (\<exists>clips. Split room b (int n) = Inr (map Some clips, None) \<and> length clips = n \<and>
               (\<forall>i<n. contents h (Samples (clips ! i) ! 0) =
                    take (len (Samples b ! 0) div n)
                      (drop (i * (len (Samples b ! 0) div n)) (contents h (Samples b ! 0)))) \<and>
               concat (map (\<lambda>t. contents h (Samples t ! 0)) clips) =
                 take (n * (len (Samples b ! 0) div n)) (contents h (Samples b ! 0)) \<and>
               length (concat (map (\<lambda>t. contents h (Samples t ! 0)) clips)) =
                 len (Samples b ! 0) - len (Samples b ! 0) mod n))"
proof (intro conjI impI)
  assume "room < n"
  with assms show "Split room b (int n) = Inl MakeSliceLenOutOfRange"
    by (rule Split_too_many)
next
  assume "n \<le> room \<and> (\<exists>ch\<in>set (Samples b). cap ch < n * (len (Samples b ! 0) div n))"
  with assms show "Split room b (int n) = Inl SliceBoundsOutOfRange"
    by (intro Split_short_channel) simp_all
next
  assume "n \<le> room \<and> (\<forall>ch\<in>set (Samples b). n * (len (Samples b ! 0) div n) \<le> cap ch)"
  with assms show "\<exists>clips. Split room b (int n) = Inr (map Some clips, None) \<and> length clips = n \<and>
               (\<forall>i<n. contents h (Samples (clips ! i) ! 0) =
                    take (len (Samples b ! 0) div n)
                      (drop (i * (len (Samples b ! 0) div n)) (contents h (Samples b ! 0)))) \<and>
               concat (map (\<lambda>t. contents h (Samples t ! 0)) clips) =
                 take (n * (len (Samples b ! 0) div n)) (contents h (Samples b ! 0)) \<and>
               length (concat (map (\<lambda>t. contents h (Samples t ! 0)) clips)) =
                 len (Samples b ! 0) - len (Samples b ! 0) mod n"
    by (intro Split_returns) simp_all
qed

text \<open>
  The amended claim at a count beyond the bound, on a clip whose second channel is too
  short, and on two channels of five samples split in two.
\<close>

theorem Split_segments_witness:
  "Split (2 ^ 45) \<lparr>Samples = [whole 0 5, whole 1 5], Name = ''b'', SampleRate = 8\<rparr> (2 ^ 62)
     = Inl MakeSliceLenOutOfRange \<and>
   Split (2 ^ 45) \<lparr>Samples = [whole 0 5, whole 1 3], Name = ''b'', SampleRate = 8\<rparr> 2
     = Inl SliceBoundsOutOfRange \<and>
   (\<exists>clips. Split (2 ^ 45) \<lparr>Samples = [whole 0 5, whole 1 5], Name = ''b'', SampleRate = 8\<rparr> 2
              = Inr (map Some clips, None) \<and>
           length clips = 2 \<and>
           concat (map (\<lambda>t. contents (heap_of [[1, 2, 3, 4, 5], [10, 20, 30, 40, 50]]) (Samples t ! 0)) clips)
             = [1, 2, 3, 4] \<and>
           length (concat (map (\<lambda>t. contents (heap_of [[1, 2, 3, 4, 5], [10, 20, 30, 40, 50]]) (Samples t ! 0)) clips))
             = 5 - 5 mod 2)"
proof -
  let ?b = "\<lparr>Samples = [whole 0 5, whole 1 5], Name = ''b'', SampleRate = 8\<rparr>"
  let ?r = "\<lparr>Samples = [whole 0 5, whole 1 3], Name = ''b'', SampleRate = 8\<rparr>"
  let ?h = "heap_of [[1, 2, 3, 4, 5], [10, 20, 30, 40, 50]]"
  have first: "contents ?h (Samples ?b ! 0) = [1, 2, 3, 4, 5]"
    by code_simp
  have b: "Samples ?b \<noteq> []" and r: "Samples ?r \<noteq> []" by simp_all
  have many: "0 < (2 :: nat) ^ 62" by simp
  have more: "(2 :: nat) ^ 45 < 2 ^ 62" by simp
  have cast: "int (2 ^ 62) = 2 ^ 62" by simp
  from Split_segments [OF b many, of "2 ^ 45" ?h]
  have "(2 :: nat) ^ 45 < 2 ^ 62 \<longrightarrow> Split (2 ^ 45) ?b (int (2 ^ 62)) = Inl MakeSliceLenOutOfRange"
    by (rule conjunct1)
  with more have 1: "Split (2 ^ 45) ?b (2 ^ 62) = Inl MakeSliceLenOutOfRange"
    unfolding cast by (rule rev_mp)
  have two: "0 < (2 :: nat)" by simp
  have short: "(2 :: nat) \<le> 2 ^ 45 \<and> (\<exists>ch\<in>set (Samples ?r). cap ch < 2 * (len (Samples ?r ! 0) div 2))"
    by (simp add: whole_def)
  from Split_segments [OF r two, of "2 ^ 45" ?h]
  have "(2 :: nat) \<le> 2 ^ 45 \<and> (\<exists>ch\<in>set (Samples ?r). cap ch < 2 * (len (Samples ?r ! 0) div 2)) \<longrightarrow>
      Split (2 ^ 45) ?r (int 2) = Inl SliceBoundsOutOfRange"
    by blast
  with short have "Split (2 ^ 45) ?r (int 2) = Inl SliceBoundsOutOfRange"
    by (rule rev_mp)
  then have 2: "Split (2 ^ 45) ?r 2 = Inl SliceBoundsOutOfRange"
    by simp
  have long: "(2 :: nat) \<le> 2 ^ 45 \<and> (\<forall>ch\<in>set (Samples ?b). 2 * (len (Samples ?b ! 0) div 2) \<le> cap ch)"
    by (simp add: whole_def)
  from Split_segments [OF b two, of "2 ^ 45" ?h] long obtain clips where
    "Split (2 ^ 45) ?b (int 2) = Inr (map Some clips, None)" "length clips = 2"
    "concat (map (\<lambda>t. contents ?h (Samples t ! 0)) clips)
       = take (2 * (len (Samples ?b ! 0) div 2)) (contents ?h (Samples ?b ! 0))"
    "length (concat (map (\<lambda>t. contents ?h (Samples t ! 0)) clips))
       = len (Samples ?b ! 0) - len (Samples ?b ! 0) mod 2"
    by blast
  then have 3: "\<exists>clips. Split (2 ^ 45) ?b 2 = Inr (map Some clips, None) \<and> length clips = 2 \<and>
           concat (map (\<lambda>t. contents ?h (Samples t ! 0)) clips) = [1, 2, 3, 4] \<and>
           length (concat (map (\<lambda>t. contents ?h (Samples t ! 0)) clips)) = 5 - 5 mod 2"
    unfolding first by (intro exI [of _ clips]) (simp add: whole_def)
  from 1 2 3 show ?thesis by blast
qed

section \<open>Append\<close>

lemma extent_window: "valid h s \<Longrightarrow> x \<in> extent s \<Longrightarrow> x \<in> window s"
  by (auto simp: valid_def extent_def window_def)

lemma spare_window: "x \<in> spare s \<Longrightarrow> x \<in> window s"
  by (auto simp: spare_def window_def)

lemma window_allocated: "valid h s \<Longrightarrow> x \<in> window s \<Longrightarrow> fst x < fresh h"
  by (auto simp: valid_def window_def)

lemma Append_loop_correct:
  assumes "distinct cs"
    and "\<forall>c\<in>set cs. c < length ts \<and> c < length (Samples source)"
    and "\<forall>c\<in>set cs. valid h (ts ! c)"
    and "\<forall>b\<in>set (Samples source). valid h b"
    and "\<forall>c\<in>set cs. \<forall>b\<in>set (Samples source). spare (ts ! c) \<inter> extent b = {}"
    and "\<forall>c\<in>set cs. \<forall>c'\<in>set cs. c \<noteq> c' \<longrightarrow> spare (ts ! c) \<inter> window (ts ! c') = {}"
  shows "\<exists>h' ts'. Append_loop g h ts source cs = Inr (h', ts') \<and> length ts' = length ts \<and>
           fresh h \<le> fresh h' \<and>
           (\<forall>x. fst x < fresh h \<and> (\<forall>c\<in>set cs. x \<notin> spare (ts ! c)) \<longrightarrow> mem h' x = mem h x) \<and>
           (\<forall>c<length ts. c \<notin> set cs \<longrightarrow> ts' ! c = ts ! c) \<and>
           (\<forall>c\<in>set cs. contents h' (ts' ! c) = contents h (ts ! c) @ contents h (Samples source ! c))"
  using assms
proof (induction cs arbitrary: h ts)
  case Nil
  show ?case by simp
next
  case (Cons c cs)
  define r where "r = append_slice g h (ts ! c) (contents h (Samples source ! c))"
  define h1 where "h1 = fst r"
  define s1 where "s1 = snd r"
  define ts1 where "ts1 = ts[c := s1]"
  have c: "c < length ts" "c < length (Samples source)" "c \<notin> set cs" "distinct cs"
    using Cons.prems(1,2) by simp_all
  have vc: "valid h (ts ! c)"
    using Cons.prems(3) by simp
  have fresh1: "fresh h \<le> fresh h1"
    unfolding h1_def r_def by (rule append_slice_fresh)
  have frame1: "mem h1 x = mem h x" if "fst x < fresh h" "x \<notin> spare (ts ! c)" for x
    unfolding h1_def r_def using that by (rule append_slice_frame)
  have cont1: "contents h1 s1 = contents h (ts ! c) @ contents h (Samples source ! c)"
    unfolding h1_def s1_def r_def by (rule append_slice_contents)
  have v1: "valid h1 s1"
    unfolding h1_def s1_def r_def using vc by (rule append_slice_valid)
  have cells1: "x \<in> window (ts ! c) \<or> fst x = fresh h" if "x \<in> window s1" for x
    using vc that unfolding s1_def r_def by (rule append_slice_cells)
  have same: "ts1 ! c' = ts ! c'" if "c' \<in> set cs" for c'
  proof -
    from that c(3) have "c \<noteq> c'" by auto
    then show ?thesis by (simp add: ts1_def)
  qed
  have p1: "\<forall>c'\<in>set cs. c' < length ts1 \<and> c' < length (Samples source)"
    using Cons.prems(2) by (simp add: ts1_def)
  have p2: "\<forall>c'\<in>set cs. valid h1 (ts1 ! c')"
    using Cons.prems(3) fresh1 by (auto simp: same intro: valid_mono)
  have p3: "\<forall>b\<in>set (Samples source). valid h1 b"
    using Cons.prems(4) fresh1 by (auto intro: valid_mono)
  have p4: "\<forall>c'\<in>set cs. \<forall>b\<in>set (Samples source). spare (ts1 ! c') \<inter> extent b = {}"
    using Cons.prems(5) by (simp add: same)
  have p5: "\<forall>c'\<in>set cs. \<forall>c''\<in>set cs. c' \<noteq> c'' \<longrightarrow> spare (ts1 ! c') \<inter> window (ts1 ! c'') = {}"
    using Cons.prems(6) by (simp add: same)
  from Cons.IH [OF c(4) p1 p2 p3 p4 p5]
  obtain h' ts' where loop: "Append_loop g h1 ts1 source cs = Inr (h', ts')"
    and len: "length ts' = length ts1"
    and fresh2: "fresh h1 \<le> fresh h'"
    and frame2: "\<And>x. fst x < fresh h1 \<Longrightarrow> (\<forall>c'\<in>set cs. x \<notin> spare (ts1 ! c')) \<Longrightarrow> mem h' x = mem h1 x"
    and keep: "\<And>c'. c' < length ts1 \<Longrightarrow> c' \<notin> set cs \<Longrightarrow> ts' ! c' = ts1 ! c'"
    and cont2: "\<And>c'. c' \<in> set cs \<Longrightarrow>
        contents h' (ts' ! c') = contents h1 (ts1 ! c') @ contents h1 (Samples source ! c')"
    by blast
  have step: "Append_loop g h ts source (c # cs) = Inr (h', ts')"
    using c(1,2) loop by (simp add: chan_def Let_def r_def h1_def s1_def ts1_def)
  have frame: "mem h' x = mem h x" if "fst x < fresh h" "\<forall>c'\<in>set (c # cs). x \<notin> spare (ts ! c')" for x
  proof -
    have "mem h' x = mem h1 x"
      using that fresh1 by (intro frame2) (auto simp: same)
    also have "\<dots> = mem h x"
      using that by (intro frame1) auto
    finally show ?thesis .
  qed
  have unchanged: "ts' ! c' = ts ! c'" if "c' < length ts" "c' \<notin> set (c # cs)" for c'
    using that keep [of c'] by (simp add: ts1_def)
  have head: "contents h' (ts' ! c) = contents h (ts ! c) @ contents h (Samples source ! c)"
  proof -
    have "ts' ! c = s1"
      using keep [of c] c by (simp add: ts1_def)
    moreover have "contents h' s1 = contents h1 s1"
    proof (rule contents_frame)
      fix x assume "x \<in> extent s1"
      then have w: "x \<in> window s1" using v1 by (rule extent_window [rotated])
      then have a: "fst x < fresh h1" using v1 by (rule window_allocated [rotated])
      have "x \<notin> spare (ts1 ! c')" if c': "c' \<in> set cs" for c'
      proof
        assume sp: "x \<in> spare (ts1 ! c')"
        then have sp': "x \<in> spare (ts ! c')" using c' by (simp add: same)
        from cells1 [OF w] show False
        proof
          assume "x \<in> window (ts ! c)"
          moreover have "c' \<noteq> c" using c' c(3) by auto
          ultimately show False using Cons.prems(6) sp' c' by auto
        next
          assume "fst x = fresh h"
          moreover have "fst x < fresh h"
            using Cons.prems(3) c' sp' by (auto intro: window_allocated spare_window)
          ultimately show False by simp
        qed
      qed
      with a show "mem h' x = mem h1 x" by (intro frame2) auto
    qed
    ultimately show ?thesis using cont1 by simp
  qed
  have tail: "contents h' (ts' ! c') = contents h (ts ! c') @ contents h (Samples source ! c')"
    if c': "c' \<in> set cs" for c'
  proof -
    have ne: "c \<noteq> c'" using c' c(3) by auto
    have "contents h1 (ts ! c') = contents h (ts ! c')"
    proof (rule contents_frame)
      fix x assume x: "x \<in> extent (ts ! c')"
      have v: "valid h (ts ! c')" using Cons.prems(3) c' by simp
      from v x have w: "x \<in> window (ts ! c')" by (rule extent_window)
      with v have "fst x < fresh h" by (rule window_allocated)
      moreover have "x \<notin> spare (ts ! c)"
        using Cons.prems(6) c' ne w by auto
      ultimately show "mem h1 x = mem h x" by (rule frame1)
    qed
    moreover have "contents h1 (Samples source ! c') = contents h (Samples source ! c')"
    proof (rule contents_frame)
      fix x assume x: "x \<in> extent (Samples source ! c')"
      have m: "Samples source ! c' \<in> set (Samples source)"
        using Cons.prems(2) c' by simp
      then have v: "valid h (Samples source ! c')" using Cons.prems(4) by simp
      from v x have "x \<in> window (Samples source ! c')" by (rule extent_window)
      with v have "fst x < fresh h" by (rule window_allocated)
      moreover have "x \<notin> spare (ts ! c)"
        using Cons.prems(5) m x by auto
      ultimately show "mem h1 x = mem h x" by (rule frame1)
    qed
    ultimately show ?thesis using cont2 [OF c'] by (simp add: same [OF c'])
  qed
  have "length ts' = length ts" using len by (simp add: ts1_def)
  moreover have "fresh h \<le> fresh h'" using fresh1 fresh2 by simp
  moreover have "\<forall>c'\<in>set (c # cs). contents h' (ts' ! c') = contents h (ts ! c') @ contents h (Samples source ! c')"
    using head tail by simp
  ultimately show ?case
    using step frame unchanged by blast
qed


text \<open>
  Claim C6 states, for every pair of clips with equally many channels, that \<^verbatim>\<open>Append\<close>
  succeeds, that each channel of the target becomes its former contents followed by
  those of the source's channel, and that the source is unchanged (and that unequal
  channel counts give the error). The last part fails for clips that share storage, as
  the sub-clips that \<^verbatim>\<open>Slice\<close> returns do: of a clip with the one channel 1, 2, 3, 4 take
  the target \<^verbatim>\<open>Slice(0, 2)\<close> and the source \<^verbatim>\<open>Slice(1, 3)\<close>. The target has room for two
  more samples in the shared array, so \<^verbatim>\<open>append\<close> writes there, and the source, which
  showed 2, 3, shows 2, 2 afterwards.
\<close>

theorem Append_counterexample:
  "Slice \<lparr>Samples = [whole 0 4], Name = ''big'', SampleRate = 8\<rparr> 0 2
     = Inr (\<lparr>Samples = [\<lparr>arr = 0, off = 0, len = 2, cap = 4\<rparr>], Name = [], SampleRate = 0\<rparr>, None) \<and>
   Slice \<lparr>Samples = [whole 0 4], Name = ''big'', SampleRate = 8\<rparr> 1 3
     = Inr (\<lparr>Samples = [\<lparr>arr = 0, off = 1, len = 2, cap = 3\<rparr>], Name = [], SampleRate = 0\<rparr>, None) \<and>
   view (heap_of [[1, 2, 3, 4]])
     \<lparr>Samples = [\<lparr>arr = 0, off = 1, len = 2, cap = 3\<rparr>], Name = [], SampleRate = 0\<rparr> = [[2, 3]] \<and>
   seen_after
     (Append exact_fit (heap_of [[1, 2, 3, 4]])
        \<lparr>Samples = [\<lparr>arr = 0, off = 0, len = 2, cap = 4\<rparr>], Name = [], SampleRate = 0\<rparr>
        \<lparr>Samples = [\<lparr>arr = 0, off = 1, len = 2, cap = 3\<rparr>], Name = [], SampleRate = 0\<rparr>)
     \<lparr>Samples = [\<lparr>arr = 0, off = 1, len = 2, cap = 3\<rparr>], Name = [], SampleRate = 0\<rparr>
     = Inr [[2, 2]]"
  by code_simp

text \<open>
  Claim C6 as amended, for two distinct clip objects. If the channel counts differ,
  \<^verbatim>\<open>Append\<close> returns the error
  "Clips have varying number of channels." and changes nothing. If they are equal, the
  headers of both clips are valid, and the spare capacity of every channel of the target
  meets neither the window of another channel of the target nor what a channel
  of the source shows, then \<^verbatim>\<open>Append\<close> returns no error, name and rate of the target are
  kept, every channel of the target shows its former samples followed by the samples of
  the source's channel, and the source shows what it showed before.
\<close>

theorem Append_extends:
  "(length (Samples target) \<noteq> length (Samples source) \<longrightarrow>
      Append g h target source = Inr (h, target, Some ''Clips have varying number of channels.'')) \<and>
   (length (Samples target) = length (Samples source) \<and>
    (\<forall>a\<in>set (Samples target). valid h a) \<and> (\<forall>b\<in>set (Samples source). valid h b) \<and>
    own_room (Samples target) \<and> clear_of (Samples target) (Samples source) \<longrightarrow>
      (\<exists>h' target'. Append g h target source = Inr (h', target', None) \<and>
          Name target' = Name target \<and> SampleRate target' = SampleRate target \<and>
          view h' target' = map2 (@) (view h target) (view h source) \<and>
          view h' source = view h source))"
proof (intro conjI impI)
  assume "length (Samples target) \<noteq> length (Samples source)"
  then show "Append g h target source = Inr (h, target, Some ''Clips have varying number of channels.'')"
    by (simp add: Append_def)
next
  assume a: "length (Samples target) = length (Samples source) \<and>
    (\<forall>a\<in>set (Samples target). valid h a) \<and> (\<forall>b\<in>set (Samples source). valid h b) \<and>
    own_room (Samples target) \<and> clear_of (Samples target) (Samples source)"
  let ?ts = "Samples target"
  let ?cs = "[0..<length ?ts]"
  have eq: "length ?ts = length (Samples source)" using a by simp
  have vs: "\<forall>b\<in>set (Samples source). valid h b" using a by simp
  have 1: "distinct ?cs" by simp
  have 2: "\<forall>c\<in>set ?cs. c < length ?ts \<and> c < length (Samples source)" using eq by simp
  have 3: "\<forall>c\<in>set ?cs. valid h (?ts ! c)" using a by simp
  have 5: "\<forall>c\<in>set ?cs. \<forall>b\<in>set (Samples source). spare (?ts ! c) \<inter> extent b = {}"
    using a by (simp add: clear_of_def)
  have 6: "\<forall>c\<in>set ?cs. \<forall>c'\<in>set ?cs. c \<noteq> c' \<longrightarrow> spare (?ts ! c) \<inter> window (?ts ! c') = {}"
    using a by (simp add: own_room_def)
  from Append_loop_correct [OF 1 2 3 vs 5 6]
  obtain h' ts' where loop: "Append_loop g h ?ts source ?cs = Inr (h', ts')"
    and len: "length ts' = length ?ts"
    and frame: "\<And>x. fst x < fresh h \<Longrightarrow> (\<forall>c\<in>set ?cs. x \<notin> spare (?ts ! c)) \<Longrightarrow> mem h' x = mem h x"
    and cont: "\<And>c. c \<in> set ?cs \<Longrightarrow>
        contents h' (ts' ! c) = contents h (?ts ! c) @ contents h (Samples source ! c)"
    by blast
  have run: "Append g h target source = Inr (h', target\<lparr>Samples := ts'\<rparr>, None)"
    using eq loop by (simp add: Append_def)
  have tgt: "view h' (target\<lparr>Samples := ts'\<rparr>) = map2 (@) (view h target) (view h source)"
    using len eq cont by (intro nth_equalityI) (simp_all add: view_def)
  have src: "view h' source = view h source"
    unfolding view_def
  proof (rule map_cong [OF refl])
    fix b assume b: "b \<in> set (Samples source)"
    show "contents h' b = contents h b"
    proof (rule contents_frame)
      fix x assume x: "x \<in> extent b"
      from vs b have v: "valid h b" by simp
      from v x have "x \<in> window b" by (rule extent_window)
      with v have "fst x < fresh h" by (rule window_allocated)
      moreover have "\<forall>c\<in>set ?cs. x \<notin> spare (?ts ! c)"
        using 5 b x by auto
      ultimately show "mem h' x = mem h x" by (rule frame)
    qed
  qed
  from run tgt src show "\<exists>h' target'. Append g h target source = Inr (h', target', None) \<and>
          Name target' = Name target \<and> SampleRate target' = SampleRate target \<and>
          view h' target' = map2 (@) (view h target) (view h source) \<and>
          view h' source = view h source"
    by (intro exI [of _ h'] exI [of _ "target\<lparr>Samples := ts'\<rparr>"]) simp
qed

text \<open>
  The amended claim on a target with two channels, the first with room for two more
  samples: appended to it are a clip with one channel (refused) and a clip with two.
\<close>

theorem Append_extends_witness:
  "Append doubling (heap_of [[1, 2, 0, 0], [3, 4], [5, 6], [7]])
     \<lparr>Samples = [\<lparr>arr = 0, off = 0, len = 2, cap = 4\<rparr>, whole 1 2], Name = ''a'', SampleRate = 8\<rparr>
     \<lparr>Samples = [whole 2 2], Name = ''b'', SampleRate = 8\<rparr>
   = Inr (heap_of [[1, 2, 0, 0], [3, 4], [5, 6], [7]],
       \<lparr>Samples = [\<lparr>arr = 0, off = 0, len = 2, cap = 4\<rparr>, whole 1 2], Name = ''a'', SampleRate = 8\<rparr>,
       Some ''Clips have varying number of channels.'') \<and>
   (\<exists>h' target'.
      Append doubling (heap_of [[1, 2, 0, 0], [3, 4], [5, 6], [7]])
        \<lparr>Samples = [\<lparr>arr = 0, off = 0, len = 2, cap = 4\<rparr>, whole 1 2], Name = ''a'', SampleRate = 8\<rparr>
        \<lparr>Samples = [whole 2 2, whole 3 1], Name = ''b'', SampleRate = 8\<rparr>
      = Inr (h', target', None) \<and>
      Name target' = ''a'' \<and> SampleRate target' = 8 \<and>
      view h' target' = [[1, 2, 5, 6], [3, 4, 7]] \<and>
      view h' \<lparr>Samples = [whole 2 2, whole 3 1], Name = ''b'', SampleRate = 8\<rparr> = [[5, 6], [7]])"
proof -
  let ?h = "heap_of [[1, 2, 0, 0], [3, 4], [5, 6], [7]]"
  let ?a = "\<lparr>Samples = [\<lparr>arr = 0, off = 0, len = 2, cap = 4\<rparr>, whole 1 2], Name = ''a'', SampleRate = 8\<rparr>"
  let ?b = "\<lparr>Samples = [whole 2 2, whole 3 1], Name = ''b'', SampleRate = 8\<rparr>"
  let ?b1 = "\<lparr>Samples = [whole 2 2], Name = ''b'', SampleRate = 8\<rparr>"
  have va: "view ?h ?a = [[1, 2], [3, 4]]" and vb: "view ?h ?b = [[5, 6], [7]]"
    by code_simp+
  have hyp: "length (Samples ?a) = length (Samples ?b) \<and>
    (\<forall>a\<in>set (Samples ?a). valid ?h a) \<and> (\<forall>b\<in>set (Samples ?b). valid ?h b) \<and>
    own_room (Samples ?a) \<and> clear_of (Samples ?a) (Samples ?b)"
    by (auto simp: valid_def heap_of_def whole_def own_room_def clear_of_def spare_def window_def
        extent_def less_Suc_eq)
  have "length (Samples ?a) \<noteq> length (Samples ?b1)" by simp
  with Append_extends [of ?a ?b1 doubling ?h]
  have 1: "Append doubling ?h ?a ?b1 = Inr (?h, ?a, Some ''Clips have varying number of channels.'')"
    by blast
  from Append_extends [of ?a ?b doubling ?h] hyp
  obtain h' target' where "Append doubling ?h ?a ?b = Inr (h', target', None)"
    "Name target' = Name ?a" "SampleRate target' = SampleRate ?a"
    "view h' target' = map2 (@) (view ?h ?a) (view ?h ?b)" "view h' ?b = view ?h ?b"
    by blast
  then have "Append doubling ?h ?a ?b = Inr (h', target', None) \<and>
      Name target' = ''a'' \<and> SampleRate target' = 8 \<and>
      view h' target' = [[1, 2, 5, 6], [3, 4, 7]] \<and> view h' ?b = [[5, 6], [7]]"
    unfolding va vb by simp
  with 1 show ?thesis by blast
qed

section \<open>Mix and the saturating sum\<close>

lemma wrap16:
  fixes x :: int
  assumes "- 65536 \<le> x" "x < 65536"
  shows "(x + 32768) mod 65536 - 32768 =
     (if 32768 \<le> x then x - 65536 else if x < - 32768 then x + 65536 else x)"
proof -
  consider "32768 \<le> x" | "x < - 32768" | "- 32768 \<le> x" "x < 32768"
    by linarith
  then show ?thesis
  proof cases
    case 1
    define y where "y = x - 32768"
    have y: "0 \<le> y" "y < 65536" using 1 assms by (simp_all add: y_def)
    have "x + 32768 = y + 65536" by (simp add: y_def)
    then have "(x + 32768) mod 65536 = (y + 65536) mod 65536" by (simp only:)
    also have "\<dots> = y mod 65536" by (rule mod_add_self2)
    also have "\<dots> = y" using y by (rule mod_pos_pos_trivial)
    finally show ?thesis using 1 by (simp add: y_def)
  next
    case 2
    define y where "y = x + 98304"
    have y: "0 \<le> y" "y < 65536" using 2 assms by (simp_all add: y_def)
    have "y = (x + 32768) + 65536" by (simp add: y_def)
    then have "y mod 65536 = ((x + 32768) + 65536) mod 65536" by (simp only:)
    also have "\<dots> = (x + 32768) mod 65536" by (rule mod_add_self2)
    finally have "(x + 32768) mod 65536 = y mod 65536" by simp
    also have "\<dots> = y" using y by (rule mod_pos_pos_trivial)
    finally show ?thesis using 2 by (simp add: y_def)
  next
    case 3
    have "(x + 32768) mod 65536 = x + 32768"
      using 3 by (intro mod_pos_pos_trivial) simp_all
    then show ?thesis using 3 by simp
  qed
qed


lemma sint16_add:
  fixes a b :: int16
  shows "sint (a + b) =
     (if 32768 \<le> sint a + sint b then sint a + sint b - 65536
      else if sint a + sint b < - 32768 then sint a + sint b + 65536
      else sint a + sint b)"
proof -
  have ra: "- 32768 \<le> sint a" "sint a < 32768"
    using sint_ge [of a] sint_lt [of a] by simp_all
  have rb: "- 32768 \<le> sint b" "sint b < 32768"
    using sint_ge [of b] sint_lt [of b] by simp_all
  have "sint (a + b) = signed_take_bit 15 (sint a + sint b)"
    by (simp add: sint_word_ariths)
  also have "\<dots> = (sint a + sint b + 32768) mod 65536 - 32768"
    by (simp add: signed_take_bit_eq_take_bit_shift take_bit_eq_mod)
  also have "\<dots> = (if 32768 \<le> sint a + sint b then sint a + sint b - 65536
      else if sint a + sint b < - 32768 then sint a + sint b + 65536
      else sint a + sint b)"
    using ra rb by (intro wrap16) simp_all
  finally show ?thesis .
qed

lemma mix_sample_saturated: "mix_sample b a = saturated_sum a b"
proof -
  have ra: "- 32768 \<le> sint a" "sint a < 32768"
    using sint_ge [of a] sint_lt [of a] by simp_all
  have rb: "- 32768 \<le> sint b" "sint b < 32768"
    using sint_ge [of b] sint_lt [of b] by simp_all
  have c: "b + a = a + b" by simp
  show ?thesis
    unfolding mix_sample_def saturated_sum_def Let_def MaxInt16_value MinInt16_value c sint16_add
    using ra rb by auto
qed

lemma saturated_sum_zero: "saturated_sum a 0 = a"
  by (simp add: saturated_sum_def)

lemma saturated_sum_max:
  assumes "0 < sint b"
  shows "saturated_sum 32767 b = 32767" and "saturated_sum b 32767 = 32767"
proof -
  have rb: "sint b < 32768"
    using sint_lt [of b] by simp
  have m: "sint (32767 :: int16) = 32767" by simp
  show "saturated_sum 32767 b = 32767"
    unfolding saturated_sum_def Let_def sint16_add m using assms rb by auto
  have c: "b + 32767 = 32767 + b" by simp
  show "saturated_sum b 32767 = 32767"
    unfolding saturated_sum_def Let_def c sint16_add m using assms rb by auto
qed


lemma mix_loop_cells:
  assumes "distinct is" and "\<forall>i\<in>set is. i < len s"
    and "\<forall>i\<in>set is. \<forall>j\<in>set is. (arr t, off t + i) \<noteq> (arr s, off s + j)"
  shows "\<exists>h'. mix_loop h s t is = Inr h' \<and>
           (\<forall>i\<in>set is. mem h' (arr s, off s + i) =
               mix_sample (mem h (arr t, off t + i)) (mem h (arr s, off s + i))) \<and>
           (\<forall>x. (\<forall>i\<in>set is. x \<noteq> (arr s, off s + i)) \<longrightarrow> mem h' x = mem h x)"
  using assms
proof (induction "is" arbitrary: h)
  case Nil
  show ?case by simp
next
  case (Cons i "is")
  define v where "v = mix_sample (mem h (arr t, off t + i)) (mem h (arr s, off s + i))"
  define h1 where "h1 = store h s i v"
  have i: "i < len s" "i \<notin> set is" "distinct is"
    using Cons.prems(1,2) by simp_all
  have p2: "\<forall>j\<in>set is. j < len s" using Cons.prems(2) by simp
  have p3: "\<forall>j\<in>set is. \<forall>k\<in>set is. (arr t, off t + j) \<noteq> (arr s, off s + k)"
    using Cons.prems(3) by simp
  from Cons.IH [OF i(3) p2 p3, of h1]
  obtain h' where loop: "mix_loop h1 s t is = Inr h'"
    and new: "\<And>j. j \<in> set is \<Longrightarrow> mem h' (arr s, off s + j) =
               mix_sample (mem h1 (arr t, off t + j)) (mem h1 (arr s, off s + j))"
    and old: "\<And>x. (\<forall>j\<in>set is. x \<noteq> (arr s, off s + j)) \<Longrightarrow> mem h' x = mem h1 x"
    by blast
  have step: "mix_loop h s t (i # is) = Inr h'"
    using i(1) loop by (simp add: index_def assign_def load_def Let_def h1_def v_def)
  have head: "mem h' (arr s, off s + i) = v"
  proof -
    have "mem h' (arr s, off s + i) = mem h1 (arr s, off s + i)"
      using i(2) by (intro old) auto
    then show ?thesis by (simp add: h1_def)
  qed
  have tail: "mem h' (arr s, off s + j) =
      mix_sample (mem h (arr t, off t + j)) (mem h (arr s, off s + j))" if j: "j \<in> set is" for j
  proof -
    have "j \<noteq> i" using j i(2) by auto
    then have "mem h1 (arr s, off s + j) = mem h (arr s, off s + j)"
      by (simp add: h1_def)
    moreover have "(arr t, off t + j) \<noteq> (arr s, off s + i)"
      using Cons.prems(3) j by simp
    then have "mem h1 (arr t, off t + j) = mem h (arr t, off t + j)"
      by (auto simp: h1_def)
    ultimately show ?thesis using new [OF j] by simp
  qed
  have frame: "mem h' x = mem h x" if "\<forall>j\<in>set (i # is). x \<noteq> (arr s, off s + j)" for x
  proof -
    have "mem h' x = mem h1 x" using that by (intro old) simp
    also have "\<dots> = mem h x" using that by (simp add: h1_def)
    finally show ?thesis .
  qed
  from step head tail frame show ?case
    unfolding v_def by (intro exI [of _ h']) simp
qed

lemma mix_cells:
  assumes "len t \<le> len s" and "extent s \<inter> extent t = {}"
  shows "\<exists>h'. mix g h s t = Inr h' \<and>
           (\<forall>i<len t. mem h' (arr s, off s + i) =
               mix_sample (mem h (arr t, off t + i)) (mem h (arr s, off s + i))) \<and>
           (\<forall>x. (\<forall>i<len t. x \<noteq> (arr s, off s + i)) \<longrightarrow> mem h' x = mem h x)"
proof -
  have 1: "distinct [0..<len t]" by simp
  have 2: "\<forall>i\<in>set [0..<len t]. i < len s" using assms(1) by simp
  have 3: "\<forall>i\<in>set [0..<len t]. \<forall>j\<in>set [0..<len t]. (arr t, off t + i) \<noteq> (arr s, off s + j)"
  proof (intro ballI)
    fix i j assume "i \<in> set [0..<len t]" "j \<in> set [0..<len t]"
    then have "(arr t, off t + i) \<in> extent t" "(arr s, off s + j) \<in> extent s"
      using assms(1) by (simp_all add: extent_def)
    with assms(2) show "(arr t, off t + i) \<noteq> (arr s, off s + j)" by auto
  qed
  from mix_loop_cells [OF 1 2 3, of h]
  obtain h' where "mix_loop h s t [0..<len t] = Inr h'"
    and "\<And>i. i < len t \<Longrightarrow> mem h' (arr s, off s + i) =
               mix_sample (mem h (arr t, off t + i)) (mem h (arr s, off s + i))"
    and "\<And>x. (\<forall>i<len t. x \<noteq> (arr s, off s + i)) \<Longrightarrow> mem h' x = mem h x"
    by auto
  then show ?thesis
    using assms(1) by (intro exI [of _ h']) (simp add: mix_def)
qed


lemma in_extent: "i < len s \<Longrightarrow> (arr s, off s + i) \<in> extent s"
  by (simp add: extent_def)

lemma Mix_loop_cells:
  assumes "distinct cs"
    and "\<forall>c\<in>set cs. c < length (Samples s) \<and> c < length (Samples t) \<and>
           len (Samples t ! c) \<le> len (Samples s ! c)"
    and "\<forall>c\<in>set cs. \<forall>c'\<in>set cs. extent (Samples s ! c) \<inter> extent (Samples t ! c') = {}"
    and "\<forall>c\<in>set cs. \<forall>c'\<in>set cs. c \<noteq> c' \<longrightarrow> extent (Samples s ! c) \<inter> extent (Samples s ! c') = {}"
  shows "\<exists>h'. Mix_loop g h s t cs = Inr h' \<and>
           (\<forall>c\<in>set cs. \<forall>i<len (Samples t ! c).
               mem h' (arr (Samples s ! c), off (Samples s ! c) + i) =
                 mix_sample (mem h (arr (Samples t ! c), off (Samples t ! c) + i))
                   (mem h (arr (Samples s ! c), off (Samples s ! c) + i))) \<and>
           (\<forall>x. (\<forall>c\<in>set cs. \<forall>i<len (Samples t ! c). x \<noteq> (arr (Samples s ! c), off (Samples s ! c) + i))
               \<longrightarrow> mem h' x = mem h x)"
  using assms
proof (induction cs arbitrary: h)
  case Nil
  show ?case by simp
next
  case (Cons c cs)
  let ?S = "\<lambda>c. Samples s ! c" and ?T = "\<lambda>c. Samples t ! c"
  have c: "c < length (Samples s)" "c < length (Samples t)" "len (?T c) \<le> len (?S c)"
    "c \<notin> set cs" "distinct cs"
    using Cons.prems(1,2) by simp_all
  have own: "extent (?S c) \<inter> extent (?T c) = {}"
    using Cons.prems(3) by simp
  from mix_cells [OF c(3) own, of g h]
  obtain h1 where mix1: "mix g h (?S c) (?T c) = Inr h1"
    and new1: "\<And>i. i < len (?T c) \<Longrightarrow> mem h1 (arr (?S c), off (?S c) + i) =
        mix_sample (mem h (arr (?T c), off (?T c) + i)) (mem h (arr (?S c), off (?S c) + i))"
    and old1: "\<And>x. (\<forall>i<len (?T c). x \<noteq> (arr (?S c), off (?S c) + i)) \<Longrightarrow> mem h1 x = mem h x"
    by blast
  have p2: "\<forall>c\<in>set cs. c < length (Samples s) \<and> c < length (Samples t) \<and>
           len (Samples t ! c) \<le> len (Samples s ! c)"
    using Cons.prems(2) by simp
  have p3: "\<forall>c\<in>set cs. \<forall>c'\<in>set cs. extent (Samples s ! c) \<inter> extent (Samples t ! c') = {}"
    using Cons.prems(3) by simp
  have p4: "\<forall>c\<in>set cs. \<forall>c'\<in>set cs. c \<noteq> c' \<longrightarrow> extent (Samples s ! c) \<inter> extent (Samples s ! c') = {}"
    using Cons.prems(4) by simp
  from Cons.IH [OF c(5) p2 p3 p4, of h1]
  obtain h' where loop: "Mix_loop g h1 s t cs = Inr h'"
    and new2: "\<And>c' i. c' \<in> set cs \<Longrightarrow> i < len (?T c') \<Longrightarrow>
        mem h' (arr (?S c'), off (?S c') + i) =
          mix_sample (mem h1 (arr (?T c'), off (?T c') + i)) (mem h1 (arr (?S c'), off (?S c') + i))"
    and old2: "\<And>x. (\<forall>c'\<in>set cs. \<forall>i<len (?T c'). x \<noteq> (arr (?S c'), off (?S c') + i))
        \<Longrightarrow> mem h' x = mem h1 x"
    by blast
  have step: "Mix_loop g h s t (c # cs) = Inr h'"
    using c(1,2) mix1 loop by (simp add: chan_def)
  have keep1: "mem h1 x = mem h x" if "x \<notin> extent (?S c)" for x
  proof (rule old1, intro allI impI)
    fix i assume "i < len (?T c)"
    then have "(arr (?S c), off (?S c) + i) \<in> extent (?S c)"
      using c(3) by (intro in_extent) simp
    with that show "x \<noteq> (arr (?S c), off (?S c) + i)" by auto
  qed
  have head: "mem h' (arr (?S c), off (?S c) + i) =
      mix_sample (mem h (arr (?T c), off (?T c) + i)) (mem h (arr (?S c), off (?S c) + i))"
    if i: "i < len (?T c)" for i
  proof -
    have here: "(arr (?S c), off (?S c) + i) \<in> extent (?S c)"
      using i c(3) by (intro in_extent) simp
    have "mem h' (arr (?S c), off (?S c) + i) = mem h1 (arr (?S c), off (?S c) + i)"
    proof (rule old2, intro ballI allI impI)
      fix c' j assume c': "c' \<in> set cs" and j: "j < len (?T c')"
      have "len (?T c') \<le> len (?S c')" using Cons.prems(2) c' by simp
      with j have "(arr (?S c'), off (?S c') + j) \<in> extent (?S c')"
        by (intro in_extent) simp
      moreover have "c \<noteq> c'" using c' c(4) by auto
      then have "extent (?S c) \<inter> extent (?S c') = {}"
        using Cons.prems(4) c' by simp
      ultimately show "(arr (?S c), off (?S c) + i) \<noteq> (arr (?S c'), off (?S c') + j)"
        using here by auto
    qed
    with new1 [OF i] show ?thesis by simp
  qed
  have tail: "mem h' (arr (?S c'), off (?S c') + i) =
      mix_sample (mem h (arr (?T c'), off (?T c') + i)) (mem h (arr (?S c'), off (?S c') + i))"
    if c': "c' \<in> set cs" and i: "i < len (?T c')" for c' i
  proof -
    have ne: "c \<noteq> c'" using c' c(4) by auto
    have le: "len (?T c') \<le> len (?S c')" using Cons.prems(2) c' by simp
    have "(arr (?T c'), off (?T c') + i) \<in> extent (?T c')"
      using i by (rule in_extent)
    moreover have "extent (?S c) \<inter> extent (?T c') = {}"
      using Cons.prems(3) c' by simp
    ultimately have "(arr (?T c'), off (?T c') + i) \<notin> extent (?S c)" by auto
    then have a: "mem h1 (arr (?T c'), off (?T c') + i) = mem h (arr (?T c'), off (?T c') + i)"
      by (rule keep1)
    have "(arr (?S c'), off (?S c') + i) \<in> extent (?S c')"
      using i le by (intro in_extent) simp
    moreover have "extent (?S c) \<inter> extent (?S c') = {}"
      using Cons.prems(4) c' ne by simp
    ultimately have "(arr (?S c'), off (?S c') + i) \<notin> extent (?S c)" by auto
    then have b: "mem h1 (arr (?S c'), off (?S c') + i) = mem h (arr (?S c'), off (?S c') + i)"
      by (rule keep1)
    from new2 [OF c' i] a b show ?thesis by simp
  qed
  have frame: "mem h' x = mem h x"
    if "\<forall>c'\<in>set (c # cs). \<forall>i<len (?T c'). x \<noteq> (arr (?S c'), off (?S c') + i)" for x
  proof -
    have "mem h' x = mem h1 x" using that by (intro old2) simp
    also have "\<dots> = mem h x" using that by (intro old1) simp
    finally show ?thesis .
  qed
  from step head tail frame show ?case
    by (intro exI [of _ h']) simp
qed


text \<open>
  Claim C3 states, for every pair of clips with equally many channels and every position
  that both channels have, that \<^verbatim>\<open>s.Mix(t)\<close> leaves at that position of \<open>s\<close> the
  saturating sum of the sample of \<open>s\<close> and the sample of \<open>t\<close>. With the samples taken
  before the call this fails for clips that share storage. Of a clip with the one
  channel 1, 10, 100 take \<open>s\<close> as \<^verbatim>\<open>Slice(1, 3)\<close>, showing 10, 100, and \<open>t\<close> as
  \<^verbatim>\<open>Slice(0, 2)\<close>, showing 1, 10. The first step writes 11 into the cell that is
  position 0 of \<open>s\<close> and position 1 of \<open>t\<close>; the second step reads it back, and
  position 1 of \<open>s\<close> ends as 111, where the saturating sum of 100 and 10 is 110.
\<close>

theorem Mix_counterexample:
  "Slice \<lparr>Samples = [whole 0 3], Name = ''big'', SampleRate = 8\<rparr> 1 3
     = Inr (\<lparr>Samples = [\<lparr>arr = 0, off = 1, len = 2, cap = 2\<rparr>], Name = [], SampleRate = 0\<rparr>, None) \<and>
   Slice \<lparr>Samples = [whole 0 3], Name = ''big'', SampleRate = 8\<rparr> 0 2
     = Inr (\<lparr>Samples = [\<lparr>arr = 0, off = 0, len = 2, cap = 3\<rparr>], Name = [], SampleRate = 0\<rparr>, None) \<and>
   view (heap_of [[1, 10, 100]])
     \<lparr>Samples = [\<lparr>arr = 0, off = 1, len = 2, cap = 2\<rparr>], Name = [], SampleRate = 0\<rparr> = [[10, 100]] \<and>
   view (heap_of [[1, 10, 100]])
     \<lparr>Samples = [\<lparr>arr = 0, off = 0, len = 2, cap = 3\<rparr>], Name = [], SampleRate = 0\<rparr> = [[1, 10]] \<and>
   outcome
     (Mix exact_fit (heap_of [[1, 10, 100]])
        \<lparr>Samples = [\<lparr>arr = 0, off = 1, len = 2, cap = 2\<rparr>], Name = [], SampleRate = 0\<rparr>
        \<lparr>Samples = [\<lparr>arr = 0, off = 0, len = 2, cap = 3\<rparr>], Name = [], SampleRate = 0\<rparr>)
     = Inr ([], 0, [[11, 111]], None) \<and>
   saturated_sum 100 10 = 110"
  by code_simp

text \<open>
  Claim C3 as amended, for clips with equally many channels in which no channel of
  \<open>t\<close> is longer than the channel of \<open>s\<close>, and in which no cell shown by a channel of
  \<open>s\<close> is shown by another channel of \<open>s\<close> or by a channel of \<open>t\<close>: \<^verbatim>\<open>s.Mix(t)\<close>
  returns no error and leaves the headers of \<open>s\<close> as they are; at every position of
  a channel of \<open>t\<close> the channel of \<open>s\<close> holds the saturating sum (in the words of
  the specification) of the two samples it and \<open>t\<close> held there before; later positions
  of \<open>s\<close>, and \<open>t\<close>, are unchanged. The saturating sum with 0 is the identity, and
  the saturating sum of 32767 and a positive sample is 32767. (What happens when a
  channel of \<open>t\<close> is the longer one is the subject of claim C2.)
\<close>

theorem Mix_saturates:
  assumes "length (Samples s) = length (Samples t)"
    and "\<forall>k<length (Samples s). len (Samples t ! k) \<le> len (Samples s ! k)"
    and "apart (Samples s) (Samples t)"
  shows "\<exists>h'. Mix g h s t = Inr (h', s, None) \<and>
           (\<forall>k<length (Samples s). \<forall>i<len (Samples t ! k).
               contents h' (Samples s ! k) ! i =
                 saturated_sum (contents h (Samples s ! k) ! i) (contents h (Samples t ! k) ! i)) \<and>
           (\<forall>k<length (Samples s). \<forall>i<len (Samples s ! k). len (Samples t ! k) \<le> i \<longrightarrow>
               contents h' (Samples s ! k) ! i = contents h (Samples s ! k) ! i) \<and>
           view h' t = view h t \<and>
           (\<forall>a. saturated_sum a 0 = a) \<and>
           (\<forall>b. 0 < sint b \<longrightarrow> saturated_sum 32767 b = 32767 \<and> saturated_sum b 32767 = 32767)"
proof -
  let ?S = "\<lambda>c. Samples s ! c" and ?T = "\<lambda>c. Samples t ! c"
  let ?cs = "[0..<length (Samples s)]"
  have 1: "distinct ?cs" by simp
  have 2: "\<forall>c\<in>set ?cs. c < length (Samples s) \<and> c < length (Samples t) \<and> len (?T c) \<le> len (?S c)"
    using assms(1,2) by simp
  have 3: "\<forall>c\<in>set ?cs. \<forall>c'\<in>set ?cs. extent (?S c) \<inter> extent (?T c') = {}"
    using assms(1,3) by (simp add: apart_def)
  have 4: "\<forall>c\<in>set ?cs. \<forall>c'\<in>set ?cs. c \<noteq> c' \<longrightarrow> extent (?S c) \<inter> extent (?S c') = {}"
    using assms(3) by (simp add: apart_def)
  from Mix_loop_cells [OF 1 2 3 4, of g h]
  obtain h' where loop: "Mix_loop g h s t ?cs = Inr h'"
    and new: "\<And>c i. c < length (Samples s) \<Longrightarrow> i < len (?T c) \<Longrightarrow>
        mem h' (arr (?S c), off (?S c) + i) =
          mix_sample (mem h (arr (?T c), off (?T c) + i)) (mem h (arr (?S c), off (?S c) + i))"
    and old: "\<And>x. (\<forall>c\<in>set ?cs. \<forall>i<len (?T c). x \<noteq> (arr (?S c), off (?S c) + i))
        \<Longrightarrow> mem h' x = mem h x"
    by auto
  have run: "Mix g h s t = Inr (h', s, None)"
    using assms(1) loop by (simp add: Mix_def)
  have written: "(arr (?S c), off (?S c) + i) \<in> extent (?S c)"
    if "c < length (Samples s)" "i < len (?T c)" for c i
    using that assms(2) by (intro in_extent) (auto simp: less_le_trans)
  have mixed: "contents h' (?S k) ! i = saturated_sum (contents h (?S k) ! i) (contents h (?T k) ! i)"
    if k: "k < length (Samples s)" and i: "i < len (?T k)" for k i
  proof -
    have "i < len (?S k)" using k i assms(2) by (auto simp: less_le_trans)
    with i new [OF k i] show ?thesis by (simp add: mix_sample_saturated)
  qed
  have rest: "contents h' (?S k) ! i = contents h (?S k) ! i"
    if k: "k < length (Samples s)" and i: "i < len (?S k)" "len (?T k) \<le> i" for k i
  proof -
    have "mem h' (arr (?S k), off (?S k) + i) = mem h (arr (?S k), off (?S k) + i)"
    proof (rule old, intro ballI allI impI)
      fix c j assume c: "c \<in> set ?cs" and j: "j < len (?T c)"
      show "(arr (?S k), off (?S k) + i) \<noteq> (arr (?S c), off (?S c) + j)"
      proof (cases "c = k")
        case True
        with i(2) j show ?thesis by auto
      next
        case False
        then have "extent (?S k) \<inter> extent (?S c) = {}"
          using 4 k c by simp
        moreover have "(arr (?S k), off (?S k) + i) \<in> extent (?S k)"
          using i(1) by (rule in_extent)
        moreover have "(arr (?S c), off (?S c) + j) \<in> extent (?S c)"
          using c j by (intro written) simp_all
        ultimately show ?thesis by auto
      qed
    qed
    with i(1) show ?thesis by simp
  qed
  have other: "view h' t = view h t"
    unfolding view_def
  proof (rule map_cong [OF refl])
    fix b assume b: "b \<in> set (Samples t)"
    show "contents h' b = contents h b"
    proof (rule contents_frame)
      fix x assume x: "x \<in> extent b"
      show "mem h' x = mem h x"
      proof (rule old, intro ballI allI impI)
        fix c j assume c: "c \<in> set ?cs" and j: "j < len (?T c)"
        have "?S c \<in> set (Samples s)" using c by simp
        then have "extent (?S c) \<inter> extent b = {}"
          using assms(3) b by (simp add: apart_def)
        moreover have "(arr (?S c), off (?S c) + j) \<in> extent (?S c)"
          using c j by (intro written) simp_all
        ultimately show "x \<noteq> (arr (?S c), off (?S c) + j)"
          using x by auto
      qed
    qed
  qed
  from run mixed rest other show ?thesis
    by (intro exI [of _ h']) (simp add: saturated_sum_zero saturated_sum_max)
qed

text \<open>
  The amended claim on one channel: saturation at the maximum and at the minimum, a
  plain sum, a sum with zero and a position beyond the second operand.
\<close>

theorem Mix_saturates_witness:
  "\<exists>h'. Mix doubling (heap_of [[32767, - 32768, 5, 7, 9], [1, - 1, 3, 0]])
            \<lparr>Samples = [whole 0 5], Name = ''s'', SampleRate = 8\<rparr>
            \<lparr>Samples = [whole 1 4], Name = ''t'', SampleRate = 8\<rparr>
          = Inr (h', \<lparr>Samples = [whole 0 5], Name = ''s'', SampleRate = 8\<rparr>, None) \<and>
        view h' \<lparr>Samples = [whole 0 5], Name = ''s'', SampleRate = 8\<rparr> = [[32767, - 32768, 8, 7, 9]] \<and>
        view h' \<lparr>Samples = [whole 1 4], Name = ''t'', SampleRate = 8\<rparr> = [[1, - 1, 3, 0]]"
proof -
  let ?h = "heap_of [[32767, - 32768, 5, 7, 9], [1, - 1, 3, 0]]"
  let ?s = "\<lparr>Samples = [whole 0 5], Name = ''s'', SampleRate = 8\<rparr>"
  let ?t = "\<lparr>Samples = [whole 1 4], Name = ''t'', SampleRate = 8\<rparr>"
  have vs: "contents ?h (whole 0 5) = [32767, - 32768, 5, 7, 9]"
    and vt: "view ?h ?t = [[1, - 1, 3, 0]]" "contents ?h (whole 1 4) = [1, - 1, 3, 0]"
    by code_simp+
  have sums: "saturated_sum 32767 1 = 32767" "saturated_sum (- 32768) (- 1) = - 32768"
    "saturated_sum 5 3 = 8" "saturated_sum 7 0 = 7"
    by code_simp+
  have 1: "length (Samples ?s) = length (Samples ?t)" by simp
  have 2: "\<forall>k<length (Samples ?s). len (Samples ?t ! k) \<le> len (Samples ?s ! k)"
    by (simp add: whole_def)
  have 3: "apart (Samples ?s) (Samples ?t)"
    by (auto simp: apart_def extent_def whole_def)
  from Mix_saturates [OF 1 2 3, of doubling ?h]
  obtain h' where run: "Mix doubling ?h ?s ?t = Inr (h', ?s, None)"
    and mixed: "\<And>i. i < 4 \<Longrightarrow> contents h' (whole 0 5) ! i =
        saturated_sum (contents ?h (whole 0 5) ! i) (contents ?h (whole 1 4) ! i)"
    and rest: "contents h' (whole 0 5) ! 4 = contents ?h (whole 0 5) ! 4"
    and other: "view h' ?t = view ?h ?t"
    by (auto simp: whole_def)
  have "contents h' (whole 0 5) = [32767, - 32768, 8, 7, 9]"
  proof (rule nth_equalityI)
    show "length (contents h' (whole 0 5)) = length [32767, - 32768, 8, 7, 9 :: int16]"
      by (simp add: whole_def)
    fix i assume "i < length (contents h' (whole 0 5))"
    then have "i = 0 \<or> i = 1 \<or> i = 2 \<or> i = 3 \<or> i = 4"
      by (auto simp: whole_def)
    then show "contents h' (whole 0 5) ! i = [32767, - 32768, 8, 7, 9] ! i"
      using mixed [of 0] mixed [of 1] mixed [of 2] mixed [of 3] rest
      unfolding vs vt by (auto simp: sums)
  qed
  with run other show ?thesis
    unfolding vt by (intro exI [of _ h']) (simp add: view_def)
qed

section \<open>Encoding and decoding\<close>

lemma sint16_of_nat: "n \<le> 32767 \<Longrightarrow> sint (of_nat n :: int16) = int n"
  by (simp add: signed_of_nat signed_take_bit_int_eq_self)

lemma sint32_of_int: "- 2147483648 \<le> r \<Longrightarrow> r \<le> 2147483647 \<Longrightarrow> sint (of_int r :: int32) = r"
  by (simp add: signed_of_int signed_take_bit_int_eq_self)

lemma rem_nat: "0 < n \<Longrightarrow> rem (int i) (int n) = int (i mod n)"
  by (simp add: rem_def quo_nat zmod_int minus_div_mult_eq_mod [symmetric] mult.commute)

lemma interlace_chans_ok:
  "\<forall>ch\<in>set cs. ch < length (Samples c) \<and> offset < len (Samples c ! ch) \<Longrightarrow>
   interlace_chans h c offset acc cs = Inr (acc @ map (\<lambda>ch. load h (Samples c ! ch) offset) cs)"
  by (induction cs arbitrary: acc) (simp_all add: chan_def index_def)

lemma interlace_ok:
  "\<forall>offset\<in>set os. \<forall>ch<length (Samples c). offset < len (Samples c ! ch) \<Longrightarrow>
   interlace h c acc os =
     Inr (acc @ concat (map (\<lambda>offset. map (\<lambda>sc. load h sc offset) (Samples c)) os))"
proof (induction os arbitrary: acc)
  case Nil
  show ?case by simp
next
  case (Cons offset os)
  have "interlace_chans h c offset acc [0..<length (Samples c)] =
      Inr (acc @ map (\<lambda>ch. load h (Samples c ! ch) offset) [0..<length (Samples c)])"
    using Cons.prems by (intro interlace_chans_ok) simp
  moreover have "map (\<lambda>ch. load h (Samples c ! ch) offset) [0..<length (Samples c)]
      = map (\<lambda>sc. load h sc offset) (Samples c)"
    by (intro nth_equalityI) simp_all
  ultimately show ?case
    using Cons by simp
qed

lemma pick_append: "pick n i (xs @ ys) k = pick n i xs k @ pick n (i + length xs) ys k"
  by (induction xs arbitrary: i) simp_all

lemma pick_within:
  "i mod n + length xs \<le> n \<Longrightarrow>
   pick n i xs k = (if i mod n \<le> k \<and> k < i mod n + length xs then [xs ! (k - i mod n)] else [])"
proof (induction xs arbitrary: i)
  case Nil
  show ?case by simp
next
  case (Cons x xs)
  show ?case
  proof (cases "xs = []")
    case True
    then show ?thesis by auto
  next
    case False
    then have "Suc (i mod n) < n" using Cons.prems by (cases xs) simp_all
    then have m: "Suc i mod n = Suc (i mod n)"
      by (simp add: mod_Suc)
    then have "Suc i mod n + length xs \<le> n" using Cons.prems by simp
    from Cons.IH [OF this] show ?thesis
      unfolding m by (auto simp: Suc_diff_le)
  qed
qed

lemma pick_row:
  assumes "length row = n" "i mod n = 0" "k < n"
  shows "pick n i row k = [row ! k]"
  using pick_within [of i n row k] assms by simp

lemma pick_rows:
  "\<forall>row\<in>set rows. length row = n \<Longrightarrow> i mod n = 0 \<Longrightarrow> k < n \<Longrightarrow>
   pick n i (concat rows) k = map (\<lambda>row. row ! k) rows"
proof (induction rows arbitrary: i)
  case Nil
  show ?case by simp
next
  case (Cons row rows)
  have len: "length row = n" using Cons.prems(1) by simp
  have "(i + n) mod n = 0" using Cons.prems(2) by simp
  with Cons have "pick n (i + n) (concat rows) k = map (\<lambda>row. row ! k) rows"
    by simp
  with len Cons.prems show ?case
    by (simp add: pick_append pick_row)
qed


lemma deinterlace_correct:
  assumes "0 < n" and "length samples = n"
    and "\<forall>k<n. valid h (samples ! k)"
    and "\<forall>k<n. \<forall>k'<n. k \<noteq> k' \<longrightarrow> window (samples ! k) \<inter> window (samples ! k') = {}"
  shows "\<exists>h' samples'. deinterlace g (int n) h samples i xs = Inr (h', samples') \<and>
           length samples' = n \<and>
           (\<forall>k<n. contents h' (samples' ! k) = contents h (samples ! k) @ pick n i xs k)"
  using assms
proof (induction xs arbitrary: h samples i)
  case Nil
  then show ?case by simp
next
  case (Cons x xs)
  define k0 where "k0 = i mod n"
  define r where "r = append_slice g h (samples ! k0) [x]"
  define h1 where "h1 = fst r"
  define s1 where "s1 = snd r"
  define samples1 where "samples1 = samples[k0 := s1]"
  have n: "0 < n" and len: "length samples = n" by fact+
  have k0: "k0 < n" using n by (simp add: k0_def)
  have v0: "valid h (samples ! k0)" using Cons.prems(3) k0 by simp
  have fresh1: "fresh h \<le> fresh h1"
    unfolding h1_def r_def by (rule append_slice_fresh)
  have frame1: "mem h1 y = mem h y" if "fst y < fresh h" "y \<notin> spare (samples ! k0)" for y
    unfolding h1_def r_def using that by (rule append_slice_frame)
  have cont1: "contents h1 s1 = contents h (samples ! k0) @ [x]"
    unfolding h1_def s1_def r_def by (rule append_slice_contents)
  have v1: "valid h1 s1"
    unfolding h1_def s1_def r_def using v0 by (rule append_slice_valid)
  have cells1: "y \<in> window (samples ! k0) \<or> fst y = fresh h" if "y \<in> window s1" for y
    using v0 that unfolding s1_def r_def by (rule append_slice_cells)
  have at0: "samples1 ! k0 = s1" using k0 len by (simp add: samples1_def)
  have other: "samples1 ! k = samples ! k" if "k \<noteq> k0" for k
    using that by (simp add: samples1_def)
  have p2: "length samples1 = n" using len by (simp add: samples1_def)
  have p3: "\<forall>k<n. valid h1 (samples1 ! k)"
  proof (intro allI impI)
    fix k assume "k < n"
    then show "valid h1 (samples1 ! k)"
      using v1 at0 other [of k] Cons.prems(3) fresh1 by (cases "k = k0") (auto intro: valid_mono)
  qed
  have apart0: "window s1 \<inter> window (samples ! k) = {}" if k: "k < n" "k \<noteq> k0" for k
  proof -
    have "y \<notin> window (samples ! k)" if y: "y \<in> window s1" for y
    proof
      assume w: "y \<in> window (samples ! k)"
      from cells1 [OF y] show False
      proof
        assume "y \<in> window (samples ! k0)"
        with w Cons.prems(4) k k0 show False by auto
      next
        assume "fst y = fresh h"
        moreover have "fst y < fresh h"
          using Cons.prems(3) k(1) w by (auto intro: window_allocated)
        ultimately show False by simp
      qed
    qed
    then show ?thesis by auto
  qed
  have p4: "\<forall>k<n. \<forall>k'<n. k \<noteq> k' \<longrightarrow> window (samples1 ! k) \<inter> window (samples1 ! k') = {}"
  proof (intro allI impI)
    fix k k' assume kk: "k < n" "k' < n" "k \<noteq> k'"
    show "window (samples1 ! k) \<inter> window (samples1 ! k') = {}"
    proof (cases "k = k0")
      case True
      with kk apart0 [of k'] show ?thesis by (simp add: at0 other)
    next
      case False
      note nk = this
      show ?thesis
      proof (cases "k' = k0")
        case True
        with kk nk apart0 [of k] show ?thesis by (auto simp: at0 other)
      next
        case False
        with kk nk Cons.prems(4) show ?thesis by (simp add: other)
      qed
    qed
  qed
  from Cons.IH [OF n p2 p3 p4, of "Suc i"]
  obtain h' samples' where loop: "deinterlace g (int n) h1 samples1 (Suc i) xs = Inr (h', samples')"
    and len': "length samples' = n"
    and cont2: "\<And>k. k < n \<Longrightarrow> contents h' (samples' ! k) = contents h1 (samples1 ! k) @ pick n (Suc i) xs k"
    by blast
  have step: "deinterlace g (int n) h samples i (x # xs) = Inr (h', samples')"
    using n k0 len loop
    by (simp add: rem_nat Let_def k0_def [symmetric] r_def [symmetric] h1_def [symmetric]
        s1_def [symmetric] samples1_def [symmetric])
  have all: "contents h' (samples' ! k) = contents h (samples ! k) @ pick n i (x # xs) k"
    if k: "k < n" for k
  proof (cases "k = k0")
    case True
    have "contents h' (samples' ! k0) = (contents h (samples ! k0) @ [x]) @ pick n (Suc i) xs k0"
      using cont2 [OF k0] cont1 at0 by simp
    moreover have "pick n i (x # xs) k0 = x # pick n (Suc i) xs k0"
      by (simp add: k0_def)
    ultimately show ?thesis using True by simp
  next
    case False
    have "contents h1 (samples ! k) = contents h (samples ! k)"
    proof (rule contents_frame)
      fix y assume y: "y \<in> extent (samples ! k)"
      have v: "valid h (samples ! k)" using Cons.prems(3) k by simp
      from v y have w: "y \<in> window (samples ! k)" by (rule extent_window)
      with v have "fst y < fresh h" by (rule window_allocated)
      moreover have "y \<notin> spare (samples ! k0)"
      proof
        assume "y \<in> spare (samples ! k0)"
        then have "y \<in> window (samples ! k0)" by (rule spare_window)
        with w Cons.prems(4) k k0 False show False by auto
      qed
      ultimately show "mem h1 y = mem h y" by (rule frame1)
    qed
    moreover have "pick n i (x # xs) k = pick n (Suc i) xs k"
      using False by (simp add: k0_def)
    ultimately show ?thesis using cont2 [OF k] other [OF False] by simp
  qed
  from step len' all show ?case by blast
qed


lemma contents_empty_slice [simp]: "contents h empty_slice = []"
  by (simp add: contents_def empty_slice_def)

lemma NewClipFromWave_decodes:
  assumes "OpenFile name = Inr w" and "0 < sint (Header_NumChannels w)"
  shows "\<exists>h' c'. NewClipFromWave g OpenFile h name = Inr (h', c', None) \<and>
           Name c' = [] \<and> SampleRate c' = sint (Header_SampleRate w) \<and>
           length (Samples c') = nat (sint (Header_NumChannels w)) \<and>
           (\<forall>k<nat (sint (Header_NumChannels w)).
               contents h' (Samples c' ! k) = pick (nat (sint (Header_NumChannels w))) 0 (wave_Samples w) k)"
proof -
  define n where "n = nat (sint (Header_NumChannels w))"
  have n: "0 < n" "sint (Header_NumChannels w) = int n"
    using assms(2) by (simp_all add: n_def)
  let ?samples = "replicate n empty_slice"
  have 2: "length ?samples = n" by simp
  have 3: "\<forall>k<n. valid h (?samples ! k)"
    by (simp add: valid_def empty_slice_def)
  have 4: "\<forall>k<n. \<forall>k'<n. k \<noteq> k' \<longrightarrow> window (?samples ! k) \<inter> window (?samples ! k') = {}"
    by (simp add: window_def empty_slice_def)
  from deinterlace_correct [OF n(1) 2 3 4, of g 0 "wave_Samples w"]
  obtain h' samples' where loop: "deinterlace g (int n) h ?samples 0 (wave_Samples w) = Inr (h', samples')"
    and len: "length samples' = n"
    and cont: "\<And>k. k < n \<Longrightarrow> contents h' (samples' ! k) = pick n 0 (wave_Samples w) k"
    by auto
  have "NewClipFromWave g OpenFile h name =
      Inr (h', \<lparr>Samples = samples', Name = [], SampleRate = sint (Header_SampleRate w)\<rparr>, None)"
    using assms(1) n loop by (simp add: NewClipFromWave_def NewClip_def Let_def)
  with len cont show ?thesis
    unfolding n_def [symmetric] by simp
qed

lemma NewWaveFromClip_uniform:
  assumes "Samples c \<noteq> []" and "\<forall>ch\<in>set (Samples c). len ch = L"
  shows "NewWaveFromClip h c =
     Inr \<lparr>FileName = (if \<not> Contains (Name c) ''.wav'' then Name c @ ''.wav'' else Name c),
          Header_NumChannels = of_nat (length (Samples c)),
          Header_SampleRate = of_int (SampleRate c),
          wave_Samples = concat (map (\<lambda>offset. map (\<lambda>sc. load h sc offset) (Samples c)) [0..<L])\<rparr>"
proof -
  have l0: "len (Samples c ! 0) = L" using assms by (cases "Samples c") simp_all
  have "interlace h c [] [0..<L] =
      Inr ([] @ concat (map (\<lambda>offset. map (\<lambda>sc. load h sc offset) (Samples c)) [0..<L]))"
    using assms(2) by (intro interlace_ok) simp
  with assms(1) l0 show ?thesis
    by (simp add: NewWaveFromClip_def chan_def wave_NewFile_def wave_UpdateHeader_def Let_def)
qed

lemma NewWaveFromClip_many_channels:
  assumes "0 < n"
  shows "NewWaveFromClip (one_each n) (many_channels n) =
     Inr \<lparr>FileName = ''wide.wav'', Header_NumChannels = of_nat n, Header_SampleRate = 8,
          wave_Samples = replicate n 7\<rparr>"
proof -
  have 1: "Samples (many_channels n) \<noteq> []"
    using assms by (simp add: many_channels_def)
  have 2: "\<forall>ch\<in>set (Samples (many_channels n)). len ch = 1"
    by (auto simp: many_channels_def whole_def)
  have "map (\<lambda>sc. load (one_each n) sc 0) (Samples (many_channels n)) = replicate n 7"
    by (intro nth_equalityI)
       (simp_all add: many_channels_def whole_def load_def one_each_def heap_of_def)
  moreover have "\<not> Contains ''wide'' ''.wav''"
    by simp
  ultimately show ?thesis
    unfolding NewWaveFromClip_uniform [OF 1 2]
    by (simp add: many_channels_def)
qed

text \<open>
  Claim C4 states that decoding the encoding of a well-formed clip (at least one
  channel, channels of one length, at least 1, and a positive rate) gives back channel
  count, rate and samples. The header of the container holds the channel count in 16
  bits and the rate in 32, and \<^verbatim>\<open>NewWaveFromClip\<close> converts into these. A clip with 32768
  channels of one sample each is encoded with the channel count -32768, and decoding
  that container panics in \<^verbatim>\<open>NewClip\<close>.
\<close>

theorem wave_round_trip_counterexample:
  "NewWaveFromClip (one_each 32768) (many_channels 32768) =
     Inr \<lparr>FileName = ''wide.wav'', Header_NumChannels = - 32768, Header_SampleRate = 8,
          wave_Samples = replicate 32768 7\<rparr> \<and>
   NewClipFromWave exact_fit
     (only_file \<lparr>FileName = ''wide.wav'', Header_NumChannels = - 32768, Header_SampleRate = 8,
        wave_Samples = replicate 32768 7\<rparr>)
     (one_each 32768) ''wide.wav'' = Inl MakeSliceLenOutOfRange"
proof
  have "(of_nat 32768 :: int16) = - 32768"
    by simp
  with NewWaveFromClip_many_channels [of 32768]
  show "NewWaveFromClip (one_each 32768) (many_channels 32768) =
     Inr \<lparr>FileName = ''wide.wav'', Header_NumChannels = - 32768, Header_SampleRate = 8,
          wave_Samples = replicate 32768 7\<rparr>"
    by simp
  show "NewClipFromWave exact_fit
     (only_file \<lparr>FileName = ''wide.wav'', Header_NumChannels = - 32768, Header_SampleRate = 8,
        wave_Samples = replicate 32768 7\<rparr>)
     (one_each 32768) ''wide.wav'' = Inl MakeSliceLenOutOfRange"
    by (simp add: NewClipFromWave_def only_file_def NewClip_def)
qed

text \<open>
  Claim C4 as amended: for every clip with at least one and at most 32767 channels, all
  of one length that is at least 1, and a rate that is positive and at most 2147483647,
  \<^verbatim>\<open>NewWaveFromClip\<close> returns a container, and whenever opening a file yields that
  container, \<^verbatim>\<open>NewClipFromWave\<close> (in whatever store) returns without error a clip with
  the same samples in every channel, the same channel count and the same rate.
\<close>

theorem wave_round_trip:
  assumes "Samples c \<noteq> []" and "length (Samples c) \<le> 32767"
    and "\<forall>ch\<in>set (Samples c). len ch = L" and "1 \<le> L"
    and "0 < SampleRate c" and "SampleRate c \<le> 2147483647"
  shows "\<exists>w. NewWaveFromClip h c = Inr w \<and>
           (\<forall>OpenFile name.
              OpenFile name = Inr w \<longrightarrow>
              (\<exists>h' c'. NewClipFromWave g OpenFile h1 name = Inr (h', c', None) \<and>
                 view h' c' = view h c \<and>
                 length (Samples c') = length (Samples c) \<and>
                 SampleRate c' = SampleRate c))"
proof -
  define n where "n = length (Samples c)"
  define flat where "flat = concat (map (\<lambda>offset. map (\<lambda>sc. load h sc offset) (Samples c)) [0..<L])"
  define w where "w = \<lparr>FileName = (if \<not> Contains (Name c) ''.wav'' then Name c @ ''.wav'' else Name c),
          Header_NumChannels = of_nat n, Header_SampleRate = of_int (SampleRate c),
          wave_Samples = flat\<rparr>"
  have n: "0 < n" "n \<le> 32767" using assms(1,2) by (simp_all add: n_def)
  have enc: "NewWaveFromClip h c = Inr w"
    unfolding w_def n_def flat_def using assms(1,3) by (rule NewWaveFromClip_uniform)
  have chans: "sint (Header_NumChannels w) = int n"
    using n(2) by (simp add: w_def sint16_of_nat)
  have rate: "sint (Header_SampleRate w) = SampleRate c"
    using assms(5,6) by (simp add: w_def sint32_of_int)
  have picked: "pick n 0 flat k = contents h (Samples c ! k)" if k: "k < n" for k
  proof -
    have "pick n 0 flat k = map (\<lambda>row. row ! k) (map (\<lambda>offset. map (\<lambda>sc. load h sc offset) (Samples c)) [0..<L])"
      unfolding flat_def using k by (intro pick_rows) (auto simp: n_def)
    also have "\<dots> = map (load h (Samples c ! k)) [0..<L]"
      using k by (simp add: n_def)
    also have "\<dots> = contents h (Samples c ! k)"
      using assms(3) k by (simp add: contents_def n_def)
    finally show ?thesis .
  qed
  have dec: "\<exists>h' c'. NewClipFromWave g OpenFile h1 name = Inr (h', c', None) \<and>
                 view h' c' = view h c \<and> length (Samples c') = length (Samples c) \<and>
                 SampleRate c' = SampleRate c"
    if openf: "OpenFile name = Inr w" for OpenFile name
  proof -
    have pos: "0 < sint (Header_NumChannels w)" using n(1) chans by simp
    from NewClipFromWave_decodes [where OpenFile = OpenFile and name = name and w = w
        and g = g and h = h1, OF openf pos]
    obtain h' c' where run: "NewClipFromWave g OpenFile h1 name = Inr (h', c', None)"
      and r: "SampleRate c' = SampleRate c"
      and l: "length (Samples c') = n"
      and p: "\<And>k. k < n \<Longrightarrow> contents h' (Samples c' ! k) = pick n 0 (wave_Samples w) k"
      unfolding chans rate by auto
    have "view h' c' = view h c"
      unfolding view_def using l p picked
      by (intro nth_equalityI) (simp_all add: n_def w_def)
    with run r l show ?thesis by (auto simp: n_def)
  qed
  from enc dec show ?thesis by blast
qed


text \<open>The amended claim on two channels of three samples at the rate 44100.\<close>

theorem wave_round_trip_witness:
  "\<exists>w. NewWaveFromClip (heap_of [[1, 2, 3], [4, 5, 6]])
          \<lparr>Samples = [whole 0 3, whole 1 3], Name = ''c'', SampleRate = 44100\<rparr> = Inr w \<and>
        (\<exists>h' c'. NewClipFromWave doubling (only_file w) (heap_of [[1, 2, 3], [4, 5, 6]]) (FileName w)
                    = Inr (h', c', None) \<and>
                  view h' c' = [[1, 2, 3], [4, 5, 6]] \<and>
                  length (Samples c') = 2 \<and> SampleRate c' = 44100)"
proof -
  let ?h = "heap_of [[1, 2, 3], [4, 5, 6]]"
  let ?c = "\<lparr>Samples = [whole 0 3, whole 1 3], Name = ''c'', SampleRate = 44100\<rparr>"
  have v: "view ?h ?c = [[1, 2, 3], [4, 5, 6]]"
    by code_simp
  have "Samples ?c \<noteq> []" "length (Samples ?c) \<le> 32767" "\<forall>ch\<in>set (Samples ?c). len ch = 3"
    "1 \<le> (3 :: nat)" "0 < SampleRate ?c" "SampleRate ?c \<le> 2147483647"
    by (simp_all add: whole_def)
  from wave_round_trip [OF this, of ?h doubling ?h]
  obtain w where enc: "NewWaveFromClip ?h ?c = Inr w"
    and dec: "\<And>OpenFile name. OpenFile name = Inr w \<Longrightarrow>
              (\<exists>h' c'. NewClipFromWave doubling OpenFile ?h name = Inr (h', c', None) \<and>
                 view h' c' = view ?h ?c \<and>
                 length (Samples c') = length (Samples ?c) \<and>
                 SampleRate c' = SampleRate ?c)"
    by blast
  have "only_file w (FileName w) = Inr w"
    by (simp add: only_file_def)
  from dec [of "only_file w" "FileName w", OF this]
  obtain h' c' where "NewClipFromWave doubling (only_file w) ?h (FileName w) = Inr (h', c', None)"
    "view h' c' = view ?h ?c" "length (Samples c') = length (Samples ?c)"
    "SampleRate c' = SampleRate ?c"
    by blast
  with enc show ?thesis
    unfolding v by (intro exI [of _ w] conjI exI [of _ h'] exI [of _ c']) simp_all
qed

end
